theory Spec2Isabelle
  imports Main "HOL-Library.Multiset"
begin

section \<open>Data model of \<^verbatim>\<open>kartothek/core/common_metadata.py\<close>\<close>

text \<open>
  The module works on pyarrow schemas. A pyarrow type is a closed tagged union; the
  constructors below are the types the module tests for (\<^verbatim>\<open>is_signed_integer\<close>,
  \<^verbatim>\<open>is_unsigned_integer\<close>, \<^verbatim>\<open>is_floating\<close>, \<^verbatim>\<open>is_list\<close>, \<^verbatim>\<open>is_dictionary\<close>,
  \<^verbatim>\<open>pa.null()\<close>, \<^verbatim>\<open>pa.timestamp(unit)\<close>) and a few that pass through unchanged.
  A timestamp type carries its unit and an optional time zone, and two timestamp
  types are equal only when both agree: \<^verbatim>\<open>pa.timestamp("us")\<close> is the zone-less one.
\<close>

datatype time_unit = Unit_s | Unit_ms | Unit_us | Unit_ns

datatype arrow_type =
    PaNull
  | PaBool
  | PaInt8 | PaInt16 | PaInt32 | PaInt64
  | PaUInt8 | PaUInt16 | PaUInt32 | PaUInt64
  | PaFloat16 | PaFloat32 | PaFloat64
  | PaString
  | PaBinary
  | PaDate32
  | PaTimestamp time_unit "string option"
  | PaList arrow_type
  | PaDictionary arrow_type arrow_type
  | PaStruct "(string \<times> arrow_type) list"

text \<open>\<^verbatim>\<open>pa.field(name, type, nullable=True)\<close>.\<close>

record field =
  name :: string
  ftype :: arrow_type
  nullable :: bool

text \<open>
  The pandas descriptor stored under the key \<^verbatim>\<open>b"pandas"\<close> of the schema metadata, as
  \<^verbatim>\<open>load_json\<close> parses it: the entries of \<^verbatim>\<open>"index_columns"\<close> are column names or
  range-index dictionaries, the entries of \<^verbatim>\<open>"columns"\<close> are column descriptors.
\<close>

datatype index_col = IndexName string | IndexRange

record column_md =
  cname :: "string option"
  field_name :: string
  pandas_type :: "string option"
  numpy_type :: "string option"
  cmetadata :: "string option"

record pandas_meta =
  index_columns :: "index_col list"
  columns :: "column_md list"
  pandas_version :: string

text \<open>
  \<^verbatim>\<open>schema.metadata\<close> is \<^verbatim>\<open>None\<close> or a dictionary; the dictionary is its entry for
  \<^verbatim>\<open>b"pandas"\<close> (if any) and its other entries.
\<close>

record schema_metadata =
  pandas :: "pandas_meta option"
  others :: "(string \<times> string) list"

record pa_schema =
  schema_fields :: "field list"
  metadata :: "schema_metadata option"

text \<open>\<^verbatim>\<open>class SchemaWrapper\<close>: the wrapped schema and the origin labels.\<close>

record SchemaWrapper =
  internal :: pa_schema
  origin :: "string set"

text \<open>
  Constants of the module \<^verbatim>\<open>kartothek.core._compat\<close> and of the running pandas, taken
  as parameters.
\<close>

record compat =
  ARROW_LARGER_EQ_0130 :: bool
  ARROW_LARGER_EQ_0141 :: bool
  pd_version :: string

text \<open>
  Every exception the modelled code raises is a value. The \<^verbatim>\<open>ValueError\<close>s that the module
  raises with a message of its own are told apart by their message
  (\<^verbatim>\<open>MixedPandasError\<close>, \<^verbatim>\<open>SchemaViolation\<close> with the two origins it prints,
  \<^verbatim>\<open>IncompatibleColumn\<close>). \<^verbatim>\<open>UnpackValueError\<close> is the \<^verbatim>\<open>ValueError\<close> Python raises when
  an assignment to two names gets another number of values, and
  \<^verbatim>\<open>ArrowNotImplementedError\<close> is pyarrow's error for a type that cannot be written.
\<close>

datatype error =
    MixedPandasError
  | SchemaViolation "string set" "string set"
  | IncompatibleColumn string "field \<times> string" "field \<times> string"
  | NotImplementedError
  | TypeError
  | KeyError
  | IndexError
  | ArrowInvalid
  | AssertionError
  | UnpackValueError
  | ArrowNotImplementedError

section \<open>\<^verbatim>\<open>normalize_type\<close>\<close>

definition is_signed_integer :: "arrow_type \<Rightarrow> bool" where
  "is_signed_integer t = (t = PaInt8 \<or> t = PaInt16 \<or> t = PaInt32 \<or> t = PaInt64)"

definition is_unsigned_integer :: "arrow_type \<Rightarrow> bool" where
  "is_unsigned_integer t = (t = PaUInt8 \<or> t = PaUInt16 \<or> t = PaUInt32 \<or> t = PaUInt64)"

definition is_floating :: "arrow_type \<Rightarrow> bool" where
  "is_floating t = (t = PaFloat16 \<or> t = PaFloat32 \<or> t = PaFloat64)"

text \<open>\<^verbatim>\<open>"{}".format(x)\<close> for a string or \<^verbatim>\<open>None\<close>.\<close>

definition format_str :: "string option \<Rightarrow> string" where
  "format_str x = (case x of None \<Rightarrow> ''None'' | Some s \<Rightarrow> s)"

text \<open>The slice \<^verbatim>\<open>t_pd[len("list["):-1]\<close>.\<close>

definition list_inner_tag :: "string \<Rightarrow> string" where
  "list_inner_tag s = butlast (drop 5 s)"

type_synonym type_tuple = "arrow_type \<times> string option \<times> string option \<times> string option"

text \<open>
  \<^verbatim>\<open>normalize_type(t_pa, t_pd, t_np, metadata)\<close>. The tests of the \<^verbatim>\<open>if\<close> chain
  exclude each other, so the list and dictionary cases are written as patterns and
  the remaining tests follow in the order of the source. Slicing \<^verbatim>\<open>t_pd\<close> when it
  is \<^verbatim>\<open>None\<close> raises \<^verbatim>\<open>TypeError\<close>. Both branches of the dictionary case read the
  value type of the dictionary (\<^verbatim>\<open>t_pa.value_type\<close>, formerly
  \<^verbatim>\<open>t_pa.dictionary.type\<close>).
\<close>

fun normalize_type ::
  "compat \<Rightarrow> arrow_type \<Rightarrow> string option \<Rightarrow> string option \<Rightarrow> string option
     \<Rightarrow> error + type_tuple" where
  "normalize_type c (PaList v) t_pd t_np md =
     (case t_pd of
        None \<Rightarrow> Inl TypeError
      | Some s \<Rightarrow>
          (case normalize_type c v (Some (list_inner_tag s)) None None of
             Inl e \<Rightarrow> Inl e
           | Inr (t_pa2, t_pd2, t_np2, metadata2) \<Rightarrow>
               Inr (PaList t_pa2, Some (''list['' @ format_str t_pd2 @ '']''),
                    Some ''object'', None)))"
| "normalize_type c (PaDictionary i v) t_pd t_np md =
     (if ARROW_LARGER_EQ_0141 c then normalize_type c v t_np t_np None
      else normalize_type c v t_np t_np None)"
| "normalize_type c t t_pd t_np md =
     (if is_signed_integer t then Inr (PaInt64, Some ''int64'', Some ''int64'', None)
      else if is_unsigned_integer t then Inr (PaUInt64, Some ''uint64'', Some ''uint64'', None)
      else if is_floating t then Inr (PaFloat64, Some ''float64'', Some ''float64'', None)
      else Inr (t, t_pd, t_np, md))"

section \<open>The pyarrow schema operations the module calls\<close>

text \<open>
  These belong to pyarrow, not to the module; they are modelled after pyarrow's
  documented behaviour. \<^verbatim>\<open>get_field_index\<close> returns the index of the unique field
  of that name and \<^verbatim>\<open>-1\<close> when the name is absent or occurs more than once;
  \<^verbatim>\<open>field_by_name\<close> returns \<^verbatim>\<open>None\<close> in the same two cases. \<^verbatim>\<open>remove\<close> and \<^verbatim>\<open>set\<close> copy
  the schema, keep its metadata and reject an index out of range. \<^verbatim>\<open>schema[i]\<close> counts
  a negative index from the end, as Python sequences do.
\<close>

definition indices_of :: "pa_schema \<Rightarrow> string \<Rightarrow> nat list" where
  "indices_of schema n =
     filter (\<lambda>i. name (schema_fields schema ! i) = n) [0..<length (schema_fields schema)]"

definition get_field_index :: "pa_schema \<Rightarrow> string \<Rightarrow> int" where
  "get_field_index schema n = (case indices_of schema n of [i] \<Rightarrow> int i | _ \<Rightarrow> - 1)"

definition field_by_name :: "pa_schema \<Rightarrow> string \<Rightarrow> field option" where
  "field_by_name schema n =
     (case filter (\<lambda>f. name f = n) (schema_fields schema) of [f] \<Rightarrow> Some f | _ \<Rightarrow> None)"

definition schema_remove :: "pa_schema \<Rightarrow> int \<Rightarrow> error + pa_schema" where
  "schema_remove schema i =
     (if 0 \<le> i \<and> i < int (length (schema_fields schema))
      then Inr (schema\<lparr>schema_fields :=
                  take (nat i) (schema_fields schema) @ drop (Suc (nat i)) (schema_fields schema)\<rparr>)
      else Inl ArrowInvalid)"

definition schema_set :: "pa_schema \<Rightarrow> int \<Rightarrow> field option \<Rightarrow> error + pa_schema" where
  "schema_set schema i fo =
     (case fo of
        None \<Rightarrow> Inl TypeError
      | Some f \<Rightarrow>
          if 0 \<le> i \<and> i < int (length (schema_fields schema))
          then Inr (schema\<lparr>schema_fields := (schema_fields schema)[nat i := f]\<rparr>)
          else Inl ArrowInvalid)"

definition schema_append :: "pa_schema \<Rightarrow> field \<Rightarrow> pa_schema" where
  "schema_append schema f = schema\<lparr>schema_fields := schema_fields schema @ [f]\<rparr>"

definition schema_getitem :: "pa_schema \<Rightarrow> int \<Rightarrow> error + field" where
  "schema_getitem schema i =
     (let n = int (length (schema_fields schema)); j = (if i < 0 then n + i else i)
      in if 0 \<le> j \<and> j < n then Inr (schema_fields schema ! nat j) else Inl IndexError)"

definition schema_names :: "pa_schema \<Rightarrow> string list" where
  "schema_names schema = map name (schema_fields schema)"

text \<open>\<^verbatim>\<open>Schema.equals(other, check_metadata=False)\<close>: the field lists are equal.\<close>

definition schema_equals :: "pa_schema \<Rightarrow> pa_schema \<Rightarrow> bool" where
  "schema_equals a b = (schema_fields a = schema_fields b)"

section \<open>\<^verbatim>\<open>SchemaWrapper\<close>\<close>

text \<open>Decimal rendering of an index, for \<^verbatim>\<open>"__index_level_{}__".format(ix)\<close>.\<close>

fun str_nat :: "nat \<Rightarrow> string" where
  "str_nat n =
     (if n < 10 then [char_of (48 + n)] else str_nat (n div 10) @ [char_of (48 + n mod 10)])"

declare str_nat.simps [simp del]

text \<open>
  \<^verbatim>\<open>_pandas_meta_from_schema\<close> on a schema whose metadata is not \<^verbatim>\<open>None\<close>: with a recent
  pyarrow \<^verbatim>\<open>schema.pandas_metadata\<close> is \<^verbatim>\<open>None\<close> when the key is missing, and the
  subscript that follows raises \<^verbatim>\<open>TypeError\<close>; the older branch subscripts the
  dictionary and raises \<^verbatim>\<open>KeyError\<close>.
\<close>

definition missing_pandas_error :: "compat \<Rightarrow> error" where
  "missing_pandas_error c = (if ARROW_LARGER_EQ_0130 c then TypeError else KeyError)"

text \<open>The body of the loop \<^verbatim>\<open>for ix, col in enumerate(index_cols)\<close> of \<^verbatim>\<open>_schema_compat\<close>.\<close>

definition schema_compat_step ::
  "compat \<Rightarrow> pa_schema \<times> pandas_meta \<Rightarrow> nat \<times> index_col
     \<Rightarrow> error + (pa_schema \<times> pandas_meta)" where
  "schema_compat_step c acc e =
     (case acc of (schema, pandas_metadata) \<Rightarrow>
      case e of (ix, col) \<Rightarrow>
        if ARROW_LARGER_EQ_0130 c then
          (case col of
             IndexRange \<Rightarrow> Inr (schema, pandas_metadata)
           | IndexName n \<Rightarrow>
               (let index_level_ix = get_field_index schema n
                in if index_level_ix \<ge> 0
                   then (case schema_remove schema index_level_ix of
                           Inl err \<Rightarrow> Inl err
                         | Inr schema' \<Rightarrow> Inr (schema', pandas_metadata))
                   else Inr (schema, pandas_metadata)))
        else
          (case col of
             IndexRange \<Rightarrow>
               (let index_name = ''__index_level_'' @ str_nat ix @ ''__''
                in Inr (schema_append schema
                          \<lparr>name = ''index_name'', ftype = PaInt64, nullable = False\<rparr>,
                        pandas_metadata\<lparr>
                          index_columns :=
                            (index_columns pandas_metadata)[ix := IndexName index_name],
                          columns := columns pandas_metadata @
                            [\<lparr>cname = Some index_name, field_name = index_name,
                              pandas_type = Some ''int64'', numpy_type = Some ''int64'',
                              cmetadata = None\<rparr>]\<rparr>))
           | IndexName n \<Rightarrow> Inr (schema, pandas_metadata)))"

fun schema_compat_loop ::
  "compat \<Rightarrow> pa_schema \<times> pandas_meta \<Rightarrow> (nat \<times> index_col) list
     \<Rightarrow> error + (pa_schema \<times> pandas_meta)" where
  "schema_compat_loop c acc [] = Inr acc"
| "schema_compat_loop c acc (e # es) =
     (case schema_compat_step c acc e of
        Inl err \<Rightarrow> Inl err
      | Inr acc' \<Rightarrow> schema_compat_loop c acc' es)"

text \<open>
  \<^verbatim>\<open>_schema_compat\<close>: a schema without metadata is kept as it is; otherwise the index
  columns are treated and the metadata is replaced by the single entry \<^verbatim>\<open>b"pandas"\<close>.
\<close>

definition schema_compat :: "compat \<Rightarrow> pa_schema \<Rightarrow> error + pa_schema" where
  "schema_compat c schema =
     (case metadata schema of
        None \<Rightarrow> Inr schema
      | Some md \<Rightarrow>
          (case pandas md of
             None \<Rightarrow> Inl (missing_pandas_error c)
           | Some pandas_metadata \<Rightarrow>
               if length (index_columns pandas_metadata) > 1 then Inl NotImplementedError
               else
                 (case schema_compat_loop c (schema, pandas_metadata)
                         (enumerate 0 (index_columns pandas_metadata)) of
                    Inl err \<Rightarrow> Inl err
                  | Inr (schema', pandas_metadata') \<Rightarrow>
                      Inr \<lparr>schema_fields = schema_fields schema',
                           metadata = Some \<lparr>pandas = Some pandas_metadata', others = []\<rparr>\<rparr>)))"

text \<open>
  \<^verbatim>\<open>SchemaWrapper.__init__\<close>. The origin is a set of strings here, so the check of its
  elements cannot fail.
\<close>

definition SchemaWrapper_init :: "compat \<Rightarrow> pa_schema \<Rightarrow> string set \<Rightarrow> error + SchemaWrapper" where
  "SchemaWrapper_init c schema orig =
     (case schema_compat c schema of
        Inl e \<Rightarrow> Inl e
      | Inr schema' \<Rightarrow> Inr \<lparr>internal = schema', origin = orig\<rparr>)"

definition with_origin :: "compat \<Rightarrow> SchemaWrapper \<Rightarrow> string set \<Rightarrow> error + SchemaWrapper" where
  "with_origin c w orig = SchemaWrapper_init c (internal w) orig"

definition wrapper_equals :: "SchemaWrapper \<Rightarrow> SchemaWrapper \<Rightarrow> bool" where
  "wrapper_equals w other = schema_equals (internal w) (internal other)"

definition wrapper_remove :: "compat \<Rightarrow> SchemaWrapper \<Rightarrow> int \<Rightarrow> error + SchemaWrapper" where
  "wrapper_remove c w i =
     (case schema_remove (internal w) i of
        Inl e \<Rightarrow> Inl e
      | Inr schema' \<Rightarrow> SchemaWrapper_init c schema' (origin w))"

definition remove_metadata :: "compat \<Rightarrow> SchemaWrapper \<Rightarrow> error + SchemaWrapper" where
  "remove_metadata c w =
     SchemaWrapper_init c ((internal w)\<lparr>metadata := None\<rparr>)
       ((\<lambda>s. s @ ''__no_metadata'') ` origin w)"

definition wrapper_set ::
  "compat \<Rightarrow> SchemaWrapper \<Rightarrow> int \<Rightarrow> field option \<Rightarrow> error + SchemaWrapper" where
  "wrapper_set c w i fo =
     (case schema_set (internal w) i fo of
        Inl e \<Rightarrow> Inl e
      | Inr schema' \<Rightarrow> SchemaWrapper_init c schema' (origin w))"

section \<open>Serialisation\<close>

text \<open>
  \<^verbatim>\<open>pq.write_metadata(schema, buf, version="2.0", coerce_timestamps="us")\<close> and
  \<^verbatim>\<open>pq.read_schema\<close> belong to pyarrow's parquet module. The footer they write and read
  is kept abstract: it holds the schema with every type replaced by the type Parquet stores
  for it.

  \<^item> A timestamp is stored with microsecond resolution (\<^verbatim>\<open>coerce_timestamps="us"\<close>), at
    the top level of a field as well as inside a list or a struct; its time zone is kept.
  \<^item> Parquet has no half-precision float: the writer raises
    \<^verbatim>\<open>ArrowNotImplementedError\<close> on \<^verbatim>\<open>halffloat\<close>, also when it occurs inside a list or a
    struct.
  \<^item> The other types of the model are taken to be stored as they are.

  The fields are converted from left to right, so the first field that cannot be stored
  raises.
\<close>

datatype parquet_footer = Footer pa_schema

fun parquet_type :: "arrow_type \<Rightarrow> error + arrow_type"
  and parquet_struct :: "(string \<times> arrow_type) list \<Rightarrow> error + (string \<times> arrow_type) list" where
  "parquet_type PaFloat16 = Inl ArrowNotImplementedError"
| "parquet_type (PaTimestamp u tz) = Inr (PaTimestamp Unit_us tz)"
| "parquet_type (PaList t) =
     (case parquet_type t of Inl e \<Rightarrow> Inl e | Inr t' \<Rightarrow> Inr (PaList t'))"
| "parquet_type (PaStruct fs) =
     (case parquet_struct fs of Inl e \<Rightarrow> Inl e | Inr fs' \<Rightarrow> Inr (PaStruct fs'))"
| "parquet_type t = Inr t"
| "parquet_struct [] = Inr []"
| "parquet_struct ((n, t) # fs) =
     (case parquet_type t of
        Inl e \<Rightarrow> Inl e
      | Inr t' \<Rightarrow>
          (case parquet_struct fs of Inl e \<Rightarrow> Inl e | Inr fs' \<Rightarrow> Inr ((n, t') # fs')))"

fun parquet_fields :: "field list \<Rightarrow> error + field list" where
  "parquet_fields [] = Inr []"
| "parquet_fields (f # fs) =
     (case parquet_type (ftype f) of
        Inl e \<Rightarrow> Inl e
      | Inr t' \<Rightarrow>
          (case parquet_fields fs of
             Inl e \<Rightarrow> Inl e
           | Inr fs' \<Rightarrow> Inr (f\<lparr>ftype := t'\<rparr> # fs')))"

definition pq_write_metadata :: "pa_schema \<Rightarrow> error + parquet_footer" where
  "pq_write_metadata schema =
     (case parquet_fields (schema_fields schema) of
        Inl e \<Rightarrow> Inl e
      | Inr fs \<Rightarrow> Inr (Footer (schema\<lparr>schema_fields := fs\<rparr>)))"

fun pq_read_schema :: "parquet_footer \<Rightarrow> pa_schema" where
  "pq_read_schema (Footer schema) = schema"

definition schema2bytes :: "pa_schema \<Rightarrow> error + parquet_footer" where
  "schema2bytes schema = pq_write_metadata schema"

text \<open>
  \<^verbatim>\<open>_bytes2schema\<close>: the loop replaces a field whose type equals \<^verbatim>\<open>pa.timestamp("us")\<close>
  by \<^verbatim>\<open>pa.field(f.name, pa.timestamp("ns"))\<close>.
\<close>

definition bytes2schema_field :: "field \<Rightarrow> field" where
  "bytes2schema_field f =
     (if ftype f = PaTimestamp Unit_us None
      then \<lparr>name = name f, ftype = PaTimestamp Unit_ns None, nullable = True\<rparr>
      else f)"

definition bytes2schema :: "parquet_footer \<Rightarrow> pa_schema" where
  "bytes2schema data =
     (let schema = pq_read_schema data
      in \<lparr>schema_fields = map bytes2schema_field (schema_fields schema),
          metadata = metadata schema\<rparr>)"

section \<open>The null-column reference resolver\<close>

text \<open>\<^verbatim>\<open>_pandas_in_schemas\<close>.\<close>

definition has_pandas_key :: "SchemaWrapper \<Rightarrow> bool" where
  "has_pandas_key schema =
     (case metadata (internal schema) of None \<Rightarrow> False | Some md \<Rightarrow> pandas md \<noteq> None)"

definition pandas_in_schemas :: "SchemaWrapper list \<Rightarrow> bool" where
  "pandas_in_schemas schemas = (\<exists>schema \<in> set schemas. has_pandas_key schema)"

text \<open>
  A Python set of column names is kept as a list without duplicates: \<^verbatim>\<open>len\<close> is the
  length of the list, \<^verbatim>\<open>issubset\<close> and the set difference read the list as a set, and
  a loop over the set runs in the order of the list. The sets the code mutates
  (\<^verbatim>\<open>null_cols_in_reference.remove(col)\<close>) are never shared with a pair already
  appended to \<^verbatim>\<open>schemas_to_evaluate\<close>, so passing the lists as values loses nothing.
\<close>

definition null_columns_of :: "SchemaWrapper \<Rightarrow> string list" where
  "null_columns_of current =
     remdups (map name (filter (\<lambda>f. ftype f = PaNull) (schema_fields (internal current))))"

definition issubset :: "string list \<Rightarrow> string list \<Rightarrow> bool" where
  "issubset xs ys = (set xs \<subseteq> set ys)"

definition set_difference :: "string list \<Rightarrow> string list \<Rightarrow> string list" where
  "set_difference xs ys = filter (\<lambda>x. x \<notin> set ys) xs"

text \<open>\<^verbatim>\<open>_swap_fields_by_name\<close>.\<close>

definition swap_fields_by_name ::
  "compat \<Rightarrow> SchemaWrapper \<Rightarrow> SchemaWrapper \<Rightarrow> string \<Rightarrow> error + SchemaWrapper" where
  "swap_fields_by_name c reference current fname =
     (let current_field = field_by_name (internal current) fname;
          reference_index = get_field_index (internal reference) fname
      in wrapper_set c reference reference_index current_field)"

text \<open>The loop \<^verbatim>\<open>for col in null_cols_in_reference - null_columns\<close>.\<close>

fun heal ::
  "compat \<Rightarrow> SchemaWrapper \<Rightarrow> SchemaWrapper \<Rightarrow> string list \<Rightarrow> string list
     \<Rightarrow> error + (SchemaWrapper \<times> string list)" where
  "heal c reference current null_cols_in_reference [] = Inr (reference, null_cols_in_reference)"
| "heal c reference current null_cols_in_reference (col # cols) =
     (case swap_fields_by_name c reference current col of
        Inl e \<Rightarrow> Inl e
      | Inr reference' \<Rightarrow> heal c reference' current (removeAll col null_cols_in_reference) cols)"

record resolver_state =
  reference :: "SchemaWrapper option"
  null_cols_in_reference :: "string list"
  schemas_to_evaluate :: "(SchemaWrapper \<times> string list) list"

text \<open>
  The first part of the loop body: with pandas metadata in play the schema must carry
  it, and its version tag is overwritten with the running version.
\<close>

definition prepare_current :: "compat \<Rightarrow> bool \<Rightarrow> SchemaWrapper \<Rightarrow> error + SchemaWrapper" where
  "prepare_current c has_pandas schema =
     (if has_pandas then
        (case metadata (internal schema) of
           None \<Rightarrow> Inl MixedPandasError
         | Some md \<Rightarrow>
             (case pandas md of
                None \<Rightarrow> Inl MixedPandasError
              | Some pandas_metadata \<Rightarrow>
                  SchemaWrapper_init c
                    \<lparr>schema_fields = schema_fields (internal schema),
                     metadata = Some (md\<lparr>pandas :=
                       Some (pandas_metadata\<lparr>pandas_version := pd_version c\<rparr>)\<rparr>)\<rparr>
                    (origin schema)))
      else Inr schema)"

text \<open>One iteration of the loop \<^verbatim>\<open>for schema in schemas\<close>.\<close>

definition resolver_step ::
  "compat \<Rightarrow> bool \<Rightarrow> resolver_state \<Rightarrow> SchemaWrapper \<Rightarrow> error + resolver_state" where
  "resolver_step c has_pandas st schema =
     (case prepare_current c has_pandas schema of
        Inl e \<Rightarrow> Inl e
      | Inr current \<Rightarrow>
          (let null_columns = null_columns_of current in
           case reference st of
             None \<Rightarrow> Inr (st\<lparr>reference := Some current, null_cols_in_reference := null_columns\<rparr>)
           | Some ref \<Rightarrow>
               if issubset (null_cols_in_reference st) null_columns then
                 Inr (st\<lparr>schemas_to_evaluate :=
                        schemas_to_evaluate st @ [(current, null_columns)]\<rparr>)
               else if issubset null_columns (null_cols_in_reference st) then
                 Inr \<lparr>reference = Some current, null_cols_in_reference = null_columns,
                      schemas_to_evaluate =
                        schemas_to_evaluate st @ [(ref, null_cols_in_reference st)]\<rparr>
               else
                 (case (if length null_columns < length (null_cols_in_reference st)
                        then (current, ref, null_columns, null_cols_in_reference st)
                        else (ref, current, null_cols_in_reference st, null_columns)) of
                    (ref1, current1, null_cols_in_reference1, null_columns1) \<Rightarrow>
                      (case heal c ref1 current1 null_cols_in_reference1
                              (set_difference null_cols_in_reference1 null_columns1) of
                         Inl e \<Rightarrow> Inl e
                       | Inr (ref2, null_cols_in_reference2) \<Rightarrow>
                           Inr \<lparr>reference = Some ref2,
                                null_cols_in_reference = null_cols_in_reference2,
                                schemas_to_evaluate =
                                  schemas_to_evaluate st @ [(current1, null_columns1)]\<rparr>))))"

fun resolver_loop ::
  "compat \<Rightarrow> bool \<Rightarrow> resolver_state \<Rightarrow> SchemaWrapper list \<Rightarrow> error + resolver_state" where
  "resolver_loop c has_pandas st [] = Inr st"
| "resolver_loop c has_pandas st (schema # schemas) =
     (case resolver_step c has_pandas st schema of
        Inl e \<Rightarrow> Inl e
      | Inr st' \<Rightarrow> resolver_loop c has_pandas st' schemas)"

definition resolver_init :: resolver_state where
  "resolver_init = \<lparr>reference = None, null_cols_in_reference = [], schemas_to_evaluate = []\<rparr>"

text \<open>\<^verbatim>\<open>_determine_schemas_to_compare\<close>, for a list of \<^verbatim>\<open>SchemaWrapper\<close> objects.\<close>

definition determine_schemas_to_compare ::
  "compat \<Rightarrow> SchemaWrapper list \<Rightarrow> bool
     \<Rightarrow> error + (SchemaWrapper option \<times> (SchemaWrapper \<times> string list) list)" where
  "determine_schemas_to_compare c schemas ignore_pandas =
     (let has_pandas = (pandas_in_schemas schemas \<and> \<not> ignore_pandas) in
      case resolver_loop c has_pandas resolver_init schemas of
        Inl e \<Rightarrow> Inl e
      | Inr st \<Rightarrow>
          if reference st \<noteq> None \<or> schemas_to_evaluate st = []
          then Inr (reference st, schemas_to_evaluate st)
          else Inl AssertionError)"

section \<open>\<^verbatim>\<open>validate_compatible\<close>\<close>

text \<open>
  \<^verbatim>\<open>_strip_columns_from_schema\<close>. The second component of the result is the log: the
  names for which a warning was emitted.
\<close>

fun strip_loop ::
  "compat \<Rightarrow> SchemaWrapper \<Rightarrow> SchemaWrapper \<Rightarrow> string list
     \<Rightarrow> error + (SchemaWrapper \<times> string list)" where
  "strip_loop c schema stripped_schema [] = Inr (stripped_schema, [])"
| "strip_loop c schema stripped_schema (n # field_names) =
     (let ix = get_field_index (internal stripped_schema) n in
      if ix \<ge> 0 then
        (case wrapper_remove c stripped_schema ix of
           Inl e \<Rightarrow> Inl e
         | Inr stripped_schema' \<Rightarrow> strip_loop c schema stripped_schema' field_names)
      else Inr (schema, [n]))"

definition strip_columns_from_schema ::
  "compat \<Rightarrow> SchemaWrapper \<Rightarrow> string list \<Rightarrow> error + (SchemaWrapper \<times> string list)" where
  "strip_columns_from_schema c schema field_names = strip_loop c schema schema field_names"

text \<open>\<^verbatim>\<open>_strip_columns_from_schema(x, null_columns).remove_metadata()\<close>.\<close>

definition to_compare :: "compat \<Rightarrow> SchemaWrapper \<Rightarrow> string list \<Rightarrow> error + SchemaWrapper" where
  "to_compare c schema null_columns =
     (case strip_columns_from_schema c schema null_columns of
        Inl e \<Rightarrow> Inl e
      | Inr (stripped, log) \<Rightarrow> remove_metadata c stripped)"

text \<open>
  \<^verbatim>\<open>_diff_schemas\<close>, called with the reference and the current schema as they came from
  the resolver (metadata included). The text of the diff is not modelled; what is modelled
  is whether the function returns.

  \<^item> \<^verbatim>\<open>first_pyarrow_info, _ = str(first).split("metadata\n--------")\<close> unpacks the
    result of the split into two names. The text of a schema ends with a section headed
    \<^verbatim>\<open>metadata\<close> exactly when the schema has metadata, so for a schema without metadata
    the split returns one piece and the assignment raises
    \<^verbatim>\<open>ValueError: not enough values to unpack\<close>. The same holds for \<^verbatim>\<open>second\<close> in the
    next line.
  \<^item> \<^verbatim>\<open>_pandas_meta_from_schema\<close> reads \<^verbatim>\<open>schema.pandas_metadata\<close>, which is \<^verbatim>\<open>None\<close>
    without the entry, or with the older releases \<^verbatim>\<open>schema.metadata[b"pandas"]\<close>, which
    raises \<^verbatim>\<open>KeyError\<close> without the entry.
\<close>

definition diff_schemas :: "compat \<Rightarrow> SchemaWrapper \<Rightarrow> SchemaWrapper \<Rightarrow> error + unit" where
  "diff_schemas c first second =
     (if metadata (internal first) = None then Inl UnpackValueError
      else if metadata (internal second) = None then Inl UnpackValueError
      else if \<not> ARROW_LARGER_EQ_0130 c \<and> \<not> has_pandas_key first then Inl KeyError
      else if \<not> ARROW_LARGER_EQ_0130 c \<and> \<not> has_pandas_key second then Inl KeyError
      else Inr ())"

text \<open>
  The body of the loop of \<^verbatim>\<open>validate_compatible\<close>. When the two stripped schemas
  differ, \<^verbatim>\<open>_diff_schemas(reference, current)\<close> is called first; if it returns, the
  message of the raised \<^verbatim>\<open>ValueError\<close> is built from the diff and from the origins of
  \<^verbatim>\<open>current\<close> and of \<^verbatim>\<open>reference\<close>, and the error value holds these two sets.
\<close>

definition compare_to_reference ::
  "compat \<Rightarrow> SchemaWrapper \<Rightarrow> SchemaWrapper \<times> string list \<Rightarrow> error + unit" where
  "compare_to_reference c ref p =
     (case p of (current, null_columns) \<Rightarrow>
      case to_compare c ref null_columns of
        Inl e \<Rightarrow> Inl e
      | Inr reference_to_compare \<Rightarrow>
          (case to_compare c current null_columns of
             Inl e \<Rightarrow> Inl e
           | Inr current_to_compare \<Rightarrow>
               if \<not> wrapper_equals reference_to_compare current_to_compare
               then (case diff_schemas c ref current of
                       Inl e \<Rightarrow> Inl e
                     | Inr schema_diff \<Rightarrow> Inl (SchemaViolation (origin current) (origin ref)))
               else Inr ()))"

fun compare_all ::
  "compat \<Rightarrow> SchemaWrapper \<Rightarrow> (SchemaWrapper \<times> string list) list \<Rightarrow> error + unit" where
  "compare_all c ref [] = Inr ()"
| "compare_all c ref (p # ps) =
     (case compare_to_reference c ref p of
        Inl e \<Rightarrow> Inl e
      | Inr u \<Rightarrow> compare_all c ref ps)"

text \<open>\<^verbatim>\<open>reduce(set.union, (schema.origin for schema, _ in schemas_to_evaluate), reference.origin)\<close>.\<close>

definition union_origins :: "SchemaWrapper \<Rightarrow> (SchemaWrapper \<times> string list) list \<Rightarrow> string set" where
  "union_origins ref pending = foldl (\<union>) (origin ref) (map (\<lambda>p. origin (fst p)) pending)"

text \<open>
  \<^verbatim>\<open>validate_compatible\<close>. With no schema at all the loop has no pair to compare, the
  reference is \<^verbatim>\<open>None\<close> and \<^verbatim>\<open>None\<close> is returned.
\<close>

definition validate_compatible ::
  "compat \<Rightarrow> SchemaWrapper list \<Rightarrow> bool \<Rightarrow> error + SchemaWrapper option" where
  "validate_compatible c schemas ignore_pandas =
     (case determine_schemas_to_compare c schemas ignore_pandas of
        Inl e \<Rightarrow> Inl e
      | Inr (ref_opt, to_evaluate) \<Rightarrow>
          (case ref_opt of
             None \<Rightarrow> Inr None
           | Some ref \<Rightarrow>
               (case compare_all c ref to_evaluate of
                  Inl e \<Rightarrow> Inl e
                | Inr u \<Rightarrow>
                    (case with_origin c ref (union_origins ref to_evaluate) of
                       Inl e \<Rightarrow> Inl e
                     | Inr r \<Rightarrow> Inr (Some r)))))"

section \<open>\<^verbatim>\<open>validate_shared_columns\<close>\<close>

text \<open>The columns of one schema that take part in the check.\<close>

definition columns_to_check :: "bool \<Rightarrow> SchemaWrapper \<Rightarrow> error + string list" where
  "columns_to_check has_pandas schema =
     (if has_pandas then
        (case metadata (internal schema) of
           None \<Rightarrow> Inl MixedPandasError
         | Some md \<Rightarrow>
             (case pandas md of
                None \<Rightarrow> Inl MixedPandasError
              | Some pandas_metadata \<Rightarrow>
                  Inr (map field_name
                        (filter (\<lambda>cmd. cname cmd \<noteq> None) (columns pandas_metadata)))))
      else Inr (schema_names (internal schema)))"

type_synonym seen_columns = "string \<rightharpoonup> (field \<times> string)"

text \<open>The loop \<^verbatim>\<open>for col in columns\<close>, with the dictionary \<^verbatim>\<open>seen\<close> passed along.\<close>

fun check_columns ::
  "SchemaWrapper \<Rightarrow> seen_columns \<Rightarrow> string list \<Rightarrow> error + seen_columns" where
  "check_columns schema seen [] = Inr seen"
| "check_columns schema seen (col # cols) =
     (let field_idx = get_field_index (internal schema) col in
      case schema_getitem (internal schema) field_idx of
        Inl e \<Rightarrow> Inl e
      | Inr f \<Rightarrow>
          (let obj = (f, col) in
           case seen col of
             Some ref \<Rightarrow>
               if ref \<noteq> obj then Inl (IncompatibleColumn col ref obj)
               else check_columns schema seen cols
           | None \<Rightarrow> check_columns schema (seen(col \<mapsto> obj)) cols))"

text \<open>The loop \<^verbatim>\<open>for schema in schemas\<close>.\<close>

fun check_schemas ::
  "bool \<Rightarrow> seen_columns \<Rightarrow> SchemaWrapper list \<Rightarrow> error + seen_columns" where
  "check_schemas has_pandas seen [] = Inr seen"
| "check_schemas has_pandas seen (schema # schemas) =
     (case columns_to_check has_pandas schema of
        Inl e \<Rightarrow> Inl e
      | Inr cols \<Rightarrow>
          (case check_columns schema seen cols of
             Inl e \<Rightarrow> Inl e
           | Inr seen' \<Rightarrow> check_schemas has_pandas seen' schemas))"

definition validate_shared_columns :: "SchemaWrapper list \<Rightarrow> bool \<Rightarrow> error + unit" where
  "validate_shared_columns schemas ignore_pandas =
     (let has_pandas = (pandas_in_schemas schemas \<and> \<not> ignore_pandas) in
      case check_schemas has_pandas Map.empty schemas of
        Inl e \<Rightarrow> Inl e
      | Inr seen \<Rightarrow> Inr ())"

section \<open>Example values\<close>

definition example_compat :: compat where
  "example_compat =
     \<lparr>ARROW_LARGER_EQ_0130 = True, ARROW_LARGER_EQ_0141 = True, pd_version = ''1.0.3''\<rparr>"

definition example_field :: "string \<Rightarrow> arrow_type \<Rightarrow> field" where
  "example_field n t = \<lparr>name = n, ftype = t, nullable = True\<rparr>"

text \<open>A wrapper around a schema without metadata.\<close>

definition example_schema :: "field list \<Rightarrow> string \<Rightarrow> SchemaWrapper" where
  "example_schema fs label =
     \<lparr>internal = \<lparr>schema_fields = fs, metadata = None\<rparr>, origin = {label}\<rparr>"

text \<open>Two schemas whose null columns overlap in neither direction.\<close>

definition example_X :: SchemaWrapper where
  "example_X = example_schema [example_field ''a'' PaNull, example_field ''b'' PaInt64] ''X''"

definition example_Y :: SchemaWrapper where
  "example_Y = example_schema [example_field ''a'' PaInt64, example_field ''b'' PaNull] ''Y''"

definition example_XY_healed :: SchemaWrapper where
  "example_XY_healed =
     example_schema [example_field ''a'' PaInt64, example_field ''b'' PaInt64] ''X''"

text \<open>Two schemas that disagree on the type of their only column.\<close>

definition example_A :: SchemaWrapper where
  "example_A = example_schema [example_field ''x'' PaInt64] ''A''"

definition example_B :: SchemaWrapper where
  "example_B = example_schema [example_field ''x'' PaString] ''B''"

text \<open>Schemas with pandas metadata: a range index and one descriptor per column.\<close>

definition example_column :: "string \<Rightarrow> string \<Rightarrow> column_md" where
  "example_column n t =
     \<lparr>cname = Some n, field_name = n, pandas_type = Some t, numpy_type = Some t,
      cmetadata = None\<rparr>"

definition example_pandas_schema ::
  "field list \<Rightarrow> index_col list \<Rightarrow> column_md list \<Rightarrow> string \<Rightarrow> SchemaWrapper" where
  "example_pandas_schema fs ixs cols label =
     \<lparr>internal = \<lparr>schema_fields = fs,
        metadata = Some \<lparr>pandas = Some \<lparr>index_columns = ixs, columns = cols,
                                        pandas_version = ''0.25.3''\<rparr>,
                         others = []\<rparr>\<rparr>,
      origin = {label}\<rparr>"



text \<open>
  The schemas of two data frames with a named index \<^verbatim>\<open>idx\<close>, as pyarrow derives them
  (the index is a field and has a descriptor), and the objects the constructor makes
  of them: the index field is removed, its descriptor stays.
\<close>

definition example_raw_S1 :: pa_schema where
  "example_raw_S1 =
     internal (example_pandas_schema
       [example_field ''x'' PaInt64, example_field ''idx'' PaInt64] [IndexName ''idx'']
       [example_column ''x'' ''int64'', example_column ''idx'' ''int64''] ''S1'')"

definition example_raw_S2 :: pa_schema where
  "example_raw_S2 =
     internal (example_pandas_schema
       [example_field ''x'' PaInt64, example_field ''y'' PaString, example_field ''idx'' PaInt64]
       [IndexName ''idx'']
       [example_column ''x'' ''int64'', example_column ''y'' ''unicode'',
        example_column ''idx'' ''int64''] ''S2'')"

definition example_S1 :: SchemaWrapper where
  "example_S1 =
     example_pandas_schema [example_field ''x'' PaInt64] [IndexName ''idx'']
       [example_column ''x'' ''int64'', example_column ''idx'' ''int64''] ''S1''"

definition example_S2 :: SchemaWrapper where
  "example_S2 =
     example_pandas_schema [example_field ''x'' PaInt64, example_field ''y'' PaString]
       [IndexName ''idx'']
       [example_column ''x'' ''int64'', example_column ''y'' ''unicode'',
        example_column ''idx'' ''int64''] ''S2''"

text \<open>A schema with a time-zone-aware and a zone-less nanosecond timestamp column.\<close>

definition example_T :: pa_schema where
  "example_T =
     \<lparr>schema_fields =
        [example_field ''t_utc'' (PaTimestamp Unit_ns (Some ''UTC'')),
         example_field ''t'' (PaTimestamp Unit_ns None)],
      metadata = None\<rparr>"

text \<open>
  Two schemas with the same columns in a different order, each with one null column
  that the other has typed.
\<close>

definition example_U :: SchemaWrapper where
  "example_U =
     example_schema [example_field ''a'' PaNull, example_field ''b'' PaInt64,
                     example_field ''c'' PaInt64] ''U''"

definition example_V :: SchemaWrapper where
  "example_V =
     example_schema [example_field ''b'' PaNull, example_field ''c'' PaInt64,
                     example_field ''a'' PaInt64] ''V''"

section \<open>Predicates used in the statements\<close>

text \<open>The names of the fields of type \<^verbatim>\<open>pa.null()\<close>.\<close>

definition null_names :: "field list \<Rightarrow> string set" where
  "null_names fs = {name f | f. f \<in> set fs \<and> ftype f = PaNull}"

text \<open>
  The loop invariant of the resolver: while no reference is chosen nothing is pending;
  every null column of the reference is in the tracked set
  \<^verbatim>\<open>null_cols_in_reference\<close>; and the tracked set is a subset of the null columns
  stored with every pending schema.
\<close>

definition resolver_inv :: "resolver_state \<Rightarrow> bool" where
  "resolver_inv st =
     ((reference st = None \<longrightarrow> schemas_to_evaluate st = [])
      \<and> (\<forall>ref. reference st = Some ref \<longrightarrow>
          set (null_columns_of ref) \<subseteq> set (null_cols_in_reference st))
      \<and> (\<forall>p \<in> set (schemas_to_evaluate st). set (null_cols_in_reference st) \<subseteq> set (snd p)))"

text \<open>
  A \<^verbatim>\<open>SchemaWrapper\<close> object is what the constructor returns: wrapping its schema and
  origin again gives the same object.
\<close>

definition is_wrapper :: "compat \<Rightarrow> SchemaWrapper \<Rightarrow> bool" where
  "is_wrapper c w = (SchemaWrapper_init c (internal w) (origin w) = Inr w)"

text \<open>
  The same property read off the schema: its metadata, if any, is the single pandas
  entry with at most one index column, and \<^verbatim>\<open>_schema_compat\<close> has nothing left to do
  for that index column.
\<close>

definition index_col_settled :: "compat \<Rightarrow> pa_schema \<Rightarrow> index_col \<Rightarrow> bool" where
  "index_col_settled c schema x =
     (if ARROW_LARGER_EQ_0130 c
      then (case x of IndexRange \<Rightarrow> True | IndexName n \<Rightarrow> get_field_index schema n < 0)
      else (case x of IndexRange \<Rightarrow> False | IndexName n \<Rightarrow> True))"

definition schema_settled :: "compat \<Rightarrow> pa_schema \<Rightarrow> bool" where
  "schema_settled c schema =
     (case metadata schema of
        None \<Rightarrow> True
      | Some md \<Rightarrow>
          others md = [] \<and>
          (case pandas md of
             None \<Rightarrow> False
           | Some pandas_metadata \<Rightarrow>
               length (index_columns pandas_metadata) \<le> 1 \<and>
               (\<forall>x \<in> set (index_columns pandas_metadata). index_col_settled c schema x)))"

text \<open>
  Every schema the resolver holds is a \<^verbatim>\<open>SchemaWrapper\<close> object whose origin is the
  origin of one of the input schemas.
\<close>

definition resolver_wrappers :: "compat \<Rightarrow> string set set \<Rightarrow> resolver_state \<Rightarrow> bool" where
  "resolver_wrappers c origins st =
     ((\<forall>ref. reference st = Some ref \<longrightarrow> is_wrapper c ref \<and> origin ref \<in> origins)
      \<and> (\<forall>p \<in> set (schemas_to_evaluate st).
            is_wrapper c (fst p) \<and> origin (fst p) \<in> origins))"

text \<open>The resolution of a timestamp type, with or without time zone.\<close>

definition timestamp_unit :: "arrow_type \<Rightarrow> time_unit option" where
  "timestamp_unit t = (case t of PaTimestamp u tz \<Rightarrow> Some u | _ \<Rightarrow> None)"

text \<open>\<^verbatim>\<open>_bytes2schema(_schema2bytes(schema))\<close>.\<close>

definition schema_roundtrip :: "pa_schema \<Rightarrow> error + pa_schema" where
  "schema_roundtrip schema =
     (case schema2bytes schema of Inl e \<Rightarrow> Inl e | Inr data \<Rightarrow> Inr (bytes2schema data))"

text \<open>A \<^verbatim>\<open>SchemaWrapper\<close> object whose columns are \<open>ns\<close>, in this order.\<close>

definition has_columns :: "compat \<Rightarrow> string list \<Rightarrow> SchemaWrapper \<Rightarrow> bool" where
  "has_columns c ns w = (is_wrapper c w \<and> schema_names (internal w) = ns)"

text \<open>The fields of a schema that carry a type.\<close>

definition typed_fields :: "SchemaWrapper \<Rightarrow> field set" where
  "typed_fields w = {f \<in> set (schema_fields (internal w)). ftype f \<noteq> PaNull}"

text \<open>No two fields of the set have the same name and differ.\<close>

definition conflict_free :: "field set \<Rightarrow> bool" where
  "conflict_free F = (\<forall>f \<in> F. \<forall>g \<in> F. name f = name g \<longrightarrow> f = g)"

text \<open>
  What the resolver keeps true when all schemas have the columns \<open>ns\<close>: the reference
  and the pending schemas have these columns, the sets stored are exactly the null
  columns, and the typed fields of the reference and of the pending schemas are the
  typed fields \<open>F\<close> of the schemas read so far.
\<close>

definition resolver_sound ::
  "compat \<Rightarrow> string list \<Rightarrow> field set \<Rightarrow> resolver_state \<Rightarrow> bool" where
  "resolver_sound c ns F st =
     (case reference st of
        None \<Rightarrow> schemas_to_evaluate st = [] \<and> F = {}
      | Some ref \<Rightarrow>
          has_columns c ns ref
          \<and> distinct (null_cols_in_reference st)
          \<and> set (null_cols_in_reference st) = null_names (schema_fields (internal ref))
          \<and> (\<forall>p \<in> set (schemas_to_evaluate st).
                has_columns c ns (fst p) \<and> distinct (snd p)
                \<and> set (snd p) = null_names (schema_fields (internal (fst p)))
                \<and> set (null_cols_in_reference st) \<subseteq> set (snd p))
          \<and> typed_fields ref \<union> (\<Union>p \<in> set (schemas_to_evaluate st). typed_fields (fst p)) = F)"

section \<open>Properties of \<^verbatim>\<open>normalize_type\<close>\<close>

lemma list_inner_tag_wrap:
  "list_inner_tag (CHR ''l'' # CHR ''i'' # CHR ''s'' # CHR ''t'' # CHR ''['' # x @ '']'') = x"
  by (simp add: list_inner_tag_def butlast_append)

lemma normalize_type_not_dictionary:
  "normalize_type c t p n m = Inr (t', r) \<Longrightarrow> t' \<noteq> PaDictionary i v"
proof (induction c t p n m arbitrary: t' r rule: normalize_type.induct)
  case (1 c v t_pd t_np md)
  then show ?case by (auto split: option.splits sum.splits)
next
  case (2 c i v t_pd t_np md)
  then show ?case by (auto split: if_splits)
qed (auto simp: is_signed_integer_def is_unsigned_integer_def is_floating_def split: if_splits)

text \<open>
  A type that \<^verbatim>\<open>normalize_type\<close> leaves alone together with its tags keeps its shape
  when the pandas tag is replaced by its rendering and the other tags are replaced
  by anything: this is the call the list case makes on the element type.
\<close>

lemma normalize_type_retag:
  assumes "normalize_type c t p n m = Inr (t, p, n, m)"
  shows "\<exists>p' n'' m''. normalize_type c t (Some (format_str p)) n' m' = Inr (t, p', n'', m'')
           \<and> format_str p' = format_str p"
proof (cases t)
  case (PaList u)
  with assms show ?thesis
    by (auto simp: format_str_def split: option.splits sum.splits)
next
  case (PaDictionary i v)
  with assms normalize_type_not_dictionary [of c t p n m t "(p, n, m)" i v] show ?thesis
    by simp
qed (use assms in \<open>auto simp: is_signed_integer_def is_unsigned_integer_def is_floating_def
       format_str_def split: if_splits\<close>)

text \<open>
  Claim C7. \<^verbatim>\<open>normalize_type\<close> is idempotent: whenever it returns a 4-tuple, applying it
  to that 4-tuple returns the same 4-tuple, for lists nested to any depth.
\<close>

theorem normalize_type_idempotent:
  "normalize_type c t p n m = Inr r \<Longrightarrow>
     (case r of (t', p', n', m') \<Rightarrow> normalize_type c t' p' n' m' = Inr r)"
proof (induction c t p n m arbitrary: r rule: normalize_type.induct)
  case (1 c v t_pd t_np md)
  from "1.prems" obtain s where s: "t_pd = Some s"
    by (auto split: option.splits)
  from "1.prems" s obtain t2 p2 n2 m2 where
    inner: "normalize_type c v (Some (list_inner_tag s)) None None = Inr (t2, p2, n2, m2)"
    and r: "r = (PaList t2, Some (''list['' @ format_str p2 @ '']''), Some ''object'', None)"
    by (auto split: sum.splits)
  from "1.IH" [OF s inner] have fx: "normalize_type c t2 p2 n2 m2 = Inr (t2, p2, n2, m2)"
    by simp
  from normalize_type_retag [OF fx, of None None] obtain p' n'' m'' where
    re: "normalize_type c t2 (Some (format_str p2)) None None = Inr (t2, p', n'', m'')"
    and f: "format_str p' = format_str p2"
    by blast
  show ?case
    by (simp add: r list_inner_tag_wrap re f)
next
  case (2 c i v t_pd t_np md)
  from "2.prems" have inner: "normalize_type c v t_np t_np None = Inr r" by simp
  show ?case
  proof (cases "ARROW_LARGER_EQ_0141 c")
    case True
    from "2.IH"(1) [OF True inner] show ?thesis .
  next
    case False
    from "2.IH"(2) [OF False inner] show ?thesis .
  qed
qed (auto simp: is_signed_integer_def is_unsigned_integer_def is_floating_def split: if_splits)

theorem normalize_type_idempotent_witness:
  "normalize_type example_compat (PaList (PaList PaUInt8)) (Some ''list[list[uint8]]'')
       (Some ''object'') None
     = Inr (PaList (PaList PaUInt64), Some ''list[list[uint64]]'', Some ''object'', None)
   \<and> normalize_type example_compat (PaList (PaList PaUInt64)) (Some ''list[list[uint64]]'')
       (Some ''object'') None
     = Inr (PaList (PaList PaUInt64), Some ''list[list[uint64]]'', Some ''object'', None)"
proof -
  have h: "normalize_type example_compat (PaList (PaList PaUInt8)) (Some ''list[list[uint8]]'')
       (Some ''object'') None
     = Inr (PaList (PaList PaUInt64), Some ''list[list[uint64]]'', Some ''object'', None)"
    by (simp add: list_inner_tag_def format_str_def is_signed_integer_def
          is_unsigned_integer_def)
  from normalize_type_idempotent [OF h] h show ?thesis by simp
qed

section \<open>Empty input\<close>

text \<open>
  Claim C9. On the empty list \<^verbatim>\<open>validate_compatible\<close> returns \<^verbatim>\<open>None\<close> and
  \<^verbatim>\<open>validate_shared_columns\<close> returns with nothing recorded in \<^verbatim>\<open>seen\<close>; the resolver
  returns no reference and no pair, so no healing has taken place.
\<close>

theorem empty_input:
  "validate_compatible c [] ignore_pandas = Inr None
   \<and> validate_shared_columns [] ignore_pandas = Inr ()
   \<and> check_schemas has_pandas Map.empty [] = Inr Map.empty
   \<and> determine_schemas_to_compare c [] ignore_pandas = Inr (None, [])"
  by (simp add: validate_compatible_def validate_shared_columns_def
        determine_schemas_to_compare_def resolver_init_def)

theorem empty_input_witness:
  "validate_compatible example_compat [] False = Inr None
   \<and> validate_shared_columns [] False = Inr ()
   \<and> check_schemas False Map.empty [] = Inr Map.empty
   \<and> determine_schemas_to_compare example_compat [] False = Inr (None, [])"
  using empty_input [of example_compat False False] by simp

section \<open>The resolver invariant\<close>

lemma set_null_columns_of: "set (null_columns_of w) = null_names (schema_fields (internal w))"
  by (auto simp: null_columns_of_def null_names_def)

lemma null_names_append [simp]: "null_names (xs @ ys) = null_names xs \<union> null_names ys"
  by (auto simp: null_names_def)

lemma null_names_take_drop:
  "null_names (take i fs @ drop (Suc i) fs) \<subseteq> null_names fs"
  by (auto simp: null_names_def dest: in_set_takeD in_set_dropD)

lemma schema_remove_nulls:
  "schema_remove s i = Inr s' \<Longrightarrow> null_names (schema_fields s') \<subseteq> null_names (schema_fields s)"
  using null_names_take_drop [of "nat i" "schema_fields s"]
  by (auto simp: schema_remove_def split: if_splits)

lemma schema_append_nulls:
  "ftype f \<noteq> PaNull \<Longrightarrow>
     null_names (schema_fields (schema_append s f)) = null_names (schema_fields s)"
  by (auto simp: schema_append_def null_names_def)

lemma schema_compat_step_nulls:
  assumes "schema_compat_step c (s, pm) e = Inr (s', pm')"
  shows "null_names (schema_fields s') \<subseteq> null_names (schema_fields s)"
proof (cases e)
  case (Pair ix col)
  show ?thesis
  proof (cases col)
    case (IndexName n)
    show ?thesis
    proof (cases "ARROW_LARGER_EQ_0130 c \<and> get_field_index s n \<ge> 0")
      case True
      show ?thesis
      proof (cases "schema_remove s (get_field_index s n)")
        case (Inl err)
        with assms Pair IndexName True show ?thesis
          by (simp add: schema_compat_step_def)
      next
        case (Inr s1)
        with assms Pair IndexName True have "s' = s1"
          by (simp add: schema_compat_step_def)
        with schema_remove_nulls [OF Inr] show ?thesis by simp
      qed
    next
      case False
      with assms Pair IndexName have "s' = s"
        by (auto simp: schema_compat_step_def Let_def split: if_splits)
      then show ?thesis by simp
    qed
  next
    case IndexRange
    show ?thesis
    proof (cases "ARROW_LARGER_EQ_0130 c")
      case True
      with assms Pair IndexRange show ?thesis by (simp add: schema_compat_step_def)
    next
      case False
      with assms Pair IndexRange have
        "s' = schema_append s \<lparr>name = ''index_name'', ftype = PaInt64, nullable = False\<rparr>"
        by (simp add: schema_compat_step_def Let_def)
      then show ?thesis by (simp add: schema_append_nulls)
    qed
  qed
qed

lemma schema_compat_nulls:
  assumes "schema_compat c s = Inr s'"
  shows "null_names (schema_fields s') \<subseteq> null_names (schema_fields s)"
proof (cases "metadata s")
  case None
  with assms show ?thesis by (simp add: schema_compat_def)
next
  case (Some md)
  with assms obtain pm where pm: "pandas md = Some pm"
    by (auto simp: schema_compat_def split: option.splits)
  from assms Some pm have len: "length (index_columns pm) \<le> 1"
    by (auto simp: schema_compat_def split: if_splits)
  show ?thesis
  proof (cases "index_columns pm")
    case Nil
    with assms Some pm show ?thesis by (auto simp: schema_compat_def)
  next
    case (Cons x xs)
    with len have xs: "xs = []" by simp
    from assms Some pm Cons xs obtain s1 pm1 where
      st: "schema_compat_step c (s, pm) (0, x) = Inr (s1, pm1)"
      and "schema_fields s' = schema_fields s1"
      by (auto simp: schema_compat_def split: sum.splits if_splits)
    with schema_compat_step_nulls [OF st] show ?thesis by simp
  qed
qed

lemma SchemaWrapper_init_nulls:
  "SchemaWrapper_init c s orig = Inr w \<Longrightarrow>
     null_names (schema_fields (internal w)) \<subseteq> null_names (schema_fields s)"
  using schema_compat_nulls
  by (fastforce simp: SchemaWrapper_init_def split: sum.splits)

lemma indices_of_single:
  assumes "indices_of s n = [i]"
  shows "i < length (schema_fields s) \<and> name (schema_fields s ! i) = n
         \<and> (\<forall>j < length (schema_fields s). name (schema_fields s ! j) = n \<longrightarrow> j = i)"
proof -
  have "set (indices_of s n) = {i}" using assms by simp
  then have eq: "{j. j < length (schema_fields s) \<and> name (schema_fields s ! j) = n} = {i}"
    by (auto simp: indices_of_def)
  then show ?thesis by blast
qed

lemma get_field_index_nonneg:
  assumes "get_field_index s n \<ge> 0"
  shows "nat (get_field_index s n) < length (schema_fields s)
         \<and> name (schema_fields s ! nat (get_field_index s n)) = n
         \<and> (\<forall>j < length (schema_fields s). name (schema_fields s ! j) = n
               \<longrightarrow> j = nat (get_field_index s n))"
proof -
  from assms obtain i where i: "indices_of s n = [i]"
    by (auto simp: get_field_index_def split: list.splits)
  then have "get_field_index s n = int i" by (simp add: get_field_index_def)
  with indices_of_single [OF i] show ?thesis by simp
qed

lemma field_by_name_Some:
  assumes "field_by_name s n = Some f"
  shows "f \<in> set (schema_fields s) \<and> name f = n"
proof -
  from assms have "filter (\<lambda>f. name f = n) (schema_fields s) = [f]"
    by (auto simp: field_by_name_def split: list.splits)
  then have "f \<in> set (filter (\<lambda>f. name f = n) (schema_fields s))" by simp
  then show ?thesis by simp
qed

lemma swap_fields_by_name_nulls:
  assumes sw: "swap_fields_by_name c ref cur col = Inr ref'"
    and cur: "col \<notin> null_names (schema_fields (internal cur))"
  shows "null_names (schema_fields (internal ref'))
           \<subseteq> null_names (schema_fields (internal ref)) - {col}"
proof -
  let ?fs = "schema_fields (internal ref)"
  let ?i = "get_field_index (internal ref) col"
  from sw obtain f where f: "field_by_name (internal cur) col = Some f"
    by (auto simp: swap_fields_by_name_def wrapper_set_def schema_set_def Let_def
        split: option.splits)
  from sw f have i0: "0 \<le> ?i"
    by (auto simp: swap_fields_by_name_def wrapper_set_def schema_set_def Let_def
        split: option.splits if_splits)
  from sw f i0 have init: "SchemaWrapper_init c ((internal ref)\<lparr>schema_fields := ?fs[nat ?i := f]\<rparr>)
      (origin ref) = Inr ref'"
    by (auto simp: swap_fields_by_name_def wrapper_set_def schema_set_def Let_def
        split: option.splits if_splits sum.splits)
  from field_by_name_Some [OF f] cur have fnn: "ftype f \<noteq> PaNull"
    by (auto simp: null_names_def)
  from get_field_index_nonneg [OF i0] have
    uniq: "\<forall>j < length ?fs. name (?fs ! j) = col \<longrightarrow> j = nat ?i" by blast
  have "null_names (?fs[nat ?i := f]) \<subseteq> null_names ?fs - {col}"
  proof
    fix x assume "x \<in> null_names (?fs[nat ?i := f])"
    then obtain g where g: "g \<in> set (?fs[nat ?i := f])" "ftype g = PaNull" "name g = x"
      by (auto simp: null_names_def)
    from g(1) obtain j where j: "j < length ?fs" "g = (?fs[nat ?i := f]) ! j"
      by (auto simp: in_set_conv_nth)
    with g(2) fnn have ji: "j \<noteq> nat ?i" by (auto simp: nth_list_update)
    with j have gj: "g = ?fs ! j" by simp
    with j(1) g(2,3) have "x \<in> null_names ?fs" by (auto simp: null_names_def)
    moreover from uniq j(1) ji gj g(3) have "x \<noteq> col" by auto
    ultimately show "x \<in> null_names ?fs - {col}" by simp
  qed
  with SchemaWrapper_init_nulls [OF init] show ?thesis by auto
qed

lemma heal_nulls:
  "heal c ref cur R cols = Inr (ref', R') \<Longrightarrow>
   null_names (schema_fields (internal ref)) \<subseteq> set R \<Longrightarrow>
   set cols \<inter> null_names (schema_fields (internal cur)) = {} \<Longrightarrow>
   null_names (schema_fields (internal ref')) \<subseteq> set R' \<and> set R' = set R - set cols"
proof (induction cols arbitrary: ref R)
  case Nil
  then show ?case by simp
next
  case (Cons col cols)
  from Cons.prems(1) obtain ref1 where
    sw: "swap_fields_by_name c ref cur col = Inr ref1"
    and rest: "heal c ref1 cur (removeAll col R) cols = Inr (ref', R')"
    by (auto split: sum.splits)
  from Cons.prems(3) have "col \<notin> null_names (schema_fields (internal cur))" by simp
  from swap_fields_by_name_nulls [OF sw this] Cons.prems(2)
  have "null_names (schema_fields (internal ref1)) \<subseteq> set (removeAll col R)" by auto
  from Cons.IH [OF rest this] Cons.prems(3) show ?case by auto
qed

lemma resolver_step_inv:
  assumes inv: "resolver_inv st"
    and step: "resolver_step c hp st schema = Inr st'"
  shows "resolver_inv st'"
proof -
  from step obtain current where prep: "prepare_current c hp schema = Inr current"
    by (auto simp: resolver_step_def split: sum.splits)
  let ?N = "null_columns_of current"
  let ?R = "null_cols_in_reference st"
  show ?thesis
  proof (cases "reference st")
    case None
    with step prep have "st' = st\<lparr>reference := Some current, null_cols_in_reference := ?N\<rparr>"
      by (simp add: resolver_step_def Let_def)
    with inv None show ?thesis by (simp add: resolver_inv_def)
  next
    case (Some ref)
    from inv Some have refR: "set (null_columns_of ref) \<subseteq> set ?R"
      and pend: "\<forall>p \<in> set (schemas_to_evaluate st). set ?R \<subseteq> set (snd p)"
      by (auto simp: resolver_inv_def)
    consider (a) "issubset ?R ?N"
      | (b) "\<not> issubset ?R ?N" "issubset ?N ?R"
      | (c) "\<not> issubset ?R ?N" "\<not> issubset ?N ?R" "length ?N < length ?R"
      | (d) "\<not> issubset ?R ?N" "\<not> issubset ?N ?R" "\<not> length ?N < length ?R"
      by blast
    then show ?thesis
    proof cases
      case a
      with step prep Some have
        "st' = st\<lparr>schemas_to_evaluate := schemas_to_evaluate st @ [(current, ?N)]\<rparr>"
        by (simp add: resolver_step_def Let_def)
      with inv Some a show ?thesis by (auto simp: resolver_inv_def issubset_def)
    next
      case b
      with step prep Some have
        "st' = \<lparr>reference = Some current, null_cols_in_reference = ?N,
                schemas_to_evaluate = schemas_to_evaluate st @ [(ref, ?R)]\<rparr>"
        by (simp add: resolver_step_def Let_def)
      with pend b show ?thesis by (auto simp: resolver_inv_def issubset_def)
    next
      case c
      with step prep Some obtain ref2 R2 where
        h: "heal c current ref ?N (set_difference ?N ?R) = Inr (ref2, R2)"
        and st': "st' = \<lparr>reference = Some ref2, null_cols_in_reference = R2,
                schemas_to_evaluate = schemas_to_evaluate st @ [(ref, ?R)]\<rparr>"
        by (auto simp: resolver_step_def Let_def split: sum.splits)
      have 1: "null_names (schema_fields (internal current)) \<subseteq> set ?N"
        by (simp add: set_null_columns_of)
      have 2: "set (set_difference ?N ?R) \<inter> null_names (schema_fields (internal ref)) = {}"
        using refR by (auto simp: set_difference_def set_null_columns_of)
      from heal_nulls [OF h 1 2] have
        r2: "null_names (schema_fields (internal ref2)) \<subseteq> set R2"
        and R2: "set R2 = set ?N - set (set_difference ?N ?R)" by auto
      from R2 have "set R2 \<subseteq> set ?R" by (auto simp: set_difference_def)
      with r2 pend st' show ?thesis
        by (auto simp: resolver_inv_def set_null_columns_of)
    next
      case d
      with step prep Some obtain ref2 R2 where
        h: "heal c ref current ?R (set_difference ?R ?N) = Inr (ref2, R2)"
        and st': "st' = \<lparr>reference = Some ref2, null_cols_in_reference = R2,
                schemas_to_evaluate = schemas_to_evaluate st @ [(current, ?N)]\<rparr>"
        by (auto simp: resolver_step_def Let_def split: sum.splits)
      have 1: "null_names (schema_fields (internal ref)) \<subseteq> set ?R"
        using refR by (simp add: set_null_columns_of)
      have 2: "set (set_difference ?R ?N) \<inter> null_names (schema_fields (internal current)) = {}"
        by (auto simp: set_difference_def set_null_columns_of)
      from heal_nulls [OF h 1 2] have
        r2: "null_names (schema_fields (internal ref2)) \<subseteq> set R2"
        and R2: "set R2 = set ?R - set (set_difference ?R ?N)" by auto
      from R2 have "set R2 \<subseteq> set ?R" "set R2 \<subseteq> set ?N" by (auto simp: set_difference_def)
      with r2 pend st' show ?thesis
        by (auto simp: resolver_inv_def set_null_columns_of)
    qed
  qed
qed

lemma resolver_loop_inv:
  "resolver_inv st \<Longrightarrow> resolver_loop c hp st schemas = Inr st' \<Longrightarrow> resolver_inv st'"
proof (induction schemas arbitrary: st)
  case Nil
  then show ?case by simp
next
  case (Cons schema schemas)
  from Cons.prems(2) obtain st1 where
    s1: "resolver_step c hp st schema = Inr st1"
    and rest: "resolver_loop c hp st1 schemas = Inr st'"
    by (auto split: sum.splits)
  from Cons.IH [OF resolver_step_inv [OF Cons.prems(1) s1] rest] show ?case .
qed

lemma resolver_init_inv: "resolver_inv resolver_init"
  by (simp add: resolver_inv_def resolver_init_def)

text \<open>
  Claim C1. Whenever the resolver returns, the null columns of the reference it
  returns are a subset of the null-column set stored with every pending pair.
\<close>

theorem resolver_reference_nulls_subset:
  assumes "determine_schemas_to_compare c schemas ignore_pandas = Inr (Some ref, pending)"
    and "(candidate, nullCols) \<in> set pending"
  shows "set (null_columns_of ref) \<subseteq> set nullCols"
proof -
  from assms(1) obtain st where
    loop: "resolver_loop c (pandas_in_schemas schemas \<and> \<not> ignore_pandas) resolver_init schemas
             = Inr st"
    and ref: "reference st = Some ref" and pend: "schemas_to_evaluate st = pending"
    by (auto simp: determine_schemas_to_compare_def Let_def split: sum.splits if_splits)
  from resolver_loop_inv [OF resolver_init_inv loop] have inv: "resolver_inv st" .
  from inv ref have "set (null_columns_of ref) \<subseteq> set (null_cols_in_reference st)"
    by (simp add: resolver_inv_def)
  moreover have "set (null_cols_in_reference st) \<subseteq> set nullCols"
  proof -
    from inv have "\<forall>p \<in> set (schemas_to_evaluate st).
        set (null_cols_in_reference st) \<subseteq> set (snd p)"
      by (simp add: resolver_inv_def)
    with pend assms(2) have "set (null_cols_in_reference st) \<subseteq> set (snd (candidate, nullCols))"
      by blast
    then show ?thesis by simp
  qed
  ultimately show ?thesis by blast
qed

lemma example_XY_resolved:
  "determine_schemas_to_compare example_compat [example_X, example_Y] False
     = Inr (Some example_XY_healed, [(example_Y, [''b''])])"
  by code_simp

theorem resolver_reference_nulls_subset_witness:
  "determine_schemas_to_compare example_compat [example_X, example_Y] False
     = Inr (Some example_XY_healed, [(example_Y, [''b''])])
   \<and> (example_Y, [''b'']) \<in> set [(example_Y, [''b''])]
   \<and> set (null_columns_of example_XY_healed) \<subseteq> set [''b'']"
proof -
  have m: "(example_Y, [''b'']) \<in> set [(example_Y, [''b''])]" by simp
  from resolver_reference_nulls_subset [OF example_XY_resolved m] example_XY_resolved
  show ?thesis by simp
qed

section \<open>The errors of the constructor\<close>

lemma schema_compat_step_errors:
  "schema_compat_step c acc e = Inl err \<Longrightarrow> err = ArrowInvalid"
  by (cases acc, cases e)
     (auto simp: schema_compat_step_def schema_remove_def Let_def
        split: if_splits index_col.splits sum.splits)

lemma schema_compat_loop_errors:
  "schema_compat_loop c acc es = Inl err \<Longrightarrow> err = ArrowInvalid"
proof (induction es arbitrary: acc)
  case Nil
  then show ?case by simp
next
  case (Cons e es)
  then show ?case
    using schema_compat_step_errors [of c acc e err]
    by (auto split: sum.splits)
qed

lemma schema_compat_errors:
  assumes "schema_compat c s = Inl err"
  shows "err = TypeError \<or> err = KeyError \<or> err = NotImplementedError \<or> err = ArrowInvalid"
proof (cases "metadata s")
  case None
  with assms show ?thesis by (simp add: schema_compat_def)
next
  case (Some md)
  show ?thesis
  proof (cases "pandas md")
    case None
    with assms Some show ?thesis
      by (auto simp: schema_compat_def missing_pandas_error_def split: if_splits)
  next
    case pm: (Some pm)
    show ?thesis
    proof (cases "length (index_columns pm) > 1")
      case True
      with assms Some pm show ?thesis by (simp add: schema_compat_def)
    next
      case False
      with assms Some pm have
        "schema_compat_loop c (s, pm) (enumerate 0 (index_columns pm)) = Inl err"
        by (auto simp: schema_compat_def split: sum.splits)
      from schema_compat_loop_errors [OF this] show ?thesis by simp
    qed
  qed
qed

lemma SchemaWrapper_init_errors:
  "SchemaWrapper_init c s orig = Inl err \<Longrightarrow>
     err = TypeError \<or> err = KeyError \<or> err = NotImplementedError \<or> err = ArrowInvalid"
  using schema_compat_errors [of c s err]
  by (auto simp: SchemaWrapper_init_def split: sum.splits)

section \<open>The shape of the resolver's result\<close>

lemma resolver_step_shape:
  assumes "resolver_step c hp st schema = Inr st'"
  shows "reference st' \<noteq> None
         \<and> length (schemas_to_evaluate st') =
             (if reference st = None then length (schemas_to_evaluate st)
              else Suc (length (schemas_to_evaluate st)))"
  using assms
  by (auto simp: resolver_step_def Let_def split: sum.splits option.splits if_splits)

lemma resolver_loop_shape:
  "resolver_loop c hp st schemas = Inr st' \<Longrightarrow> reference st \<noteq> None \<Longrightarrow>
     reference st' \<noteq> None
     \<and> length (schemas_to_evaluate st') = length (schemas_to_evaluate st) + length schemas"
proof (induction schemas arbitrary: st)
  case Nil
  then show ?case by simp
next
  case (Cons schema schemas)
  from Cons.prems(1) obtain st1 where
    s1: "resolver_step c hp st schema = Inr st1"
    and rest: "resolver_loop c hp st1 schemas = Inr st'"
    by (auto split: sum.splits)
  from resolver_step_shape [OF s1] Cons.prems(2) have
    r1: "reference st1 \<noteq> None"
    and l1: "length (schemas_to_evaluate st1) = Suc (length (schemas_to_evaluate st))"
    by auto
  from Cons.IH [OF rest r1] l1 show ?case by simp
qed

lemma resolver_result_shape:
  assumes "determine_schemas_to_compare c schemas ignore_pandas = Inr (ref, pending)"
    and "schemas \<noteq> []"
  shows "ref \<noteq> None \<and> length pending = length schemas - 1"
proof -
  from assms(2) obtain schema rest where sch: "schemas = schema # rest"
    by (cases schemas) auto
  let ?hp = "pandas_in_schemas schemas \<and> \<not> ignore_pandas"
  from assms(1) obtain st where
    loop: "resolver_loop c ?hp resolver_init schemas = Inr st"
    and ref: "reference st = ref" and pend: "schemas_to_evaluate st = pending"
    by (auto simp: determine_schemas_to_compare_def Let_def split: sum.splits if_splits)
  from loop sch obtain st1 where
    s1: "resolver_step c ?hp resolver_init schema = Inr st1"
    and rest: "resolver_loop c ?hp st1 rest = Inr st"
    by (auto split: sum.splits)
  from resolver_step_shape [OF s1] have
    r1: "reference st1 \<noteq> None" and l1: "length (schemas_to_evaluate st1) = 0"
    by (auto simp: resolver_init_def)
  from resolver_loop_shape [OF rest r1] l1 ref pend sch show ?thesis by simp
qed

text \<open>
  Claim C10. Whenever the resolver returns on a non-empty list of \<open>n\<close> schemas, its
  reference is not \<^verbatim>\<open>None\<close> and its pending list has exactly \<open>n - 1\<close> pairs; on a
  list of one schema nothing is pending, so \<^verbatim>\<open>validate_compatible\<close> compares nothing
  and never raises the schema violation.
\<close>

theorem resolver_pending_length:
  "(determine_schemas_to_compare c schemas ignore_pandas = Inr (ref, pending) \<and> schemas \<noteq> []
      \<longrightarrow> ref \<noteq> None \<and> length pending = length schemas - 1)
   \<and> (determine_schemas_to_compare c [schema] ignore_pandas = Inr (ref1, pending1)
      \<longrightarrow> pending1 = [])
   \<and> validate_compatible c [schema] ignore_pandas \<noteq> Inl (SchemaViolation o1 o2)"
proof (intro conjI impI)
  assume "determine_schemas_to_compare c schemas ignore_pandas = Inr (ref, pending) \<and> schemas \<noteq> []"
  then show "ref \<noteq> None" "length pending = length schemas - 1"
    using resolver_result_shape by blast+
next
  assume "determine_schemas_to_compare c [schema] ignore_pandas = Inr (ref1, pending1)"
  from resolver_result_shape [OF this] show "pending1 = []" by simp
next
  show "validate_compatible c [schema] ignore_pandas \<noteq> Inl (SchemaViolation o1 o2)"
  proof (cases "determine_schemas_to_compare c [schema] ignore_pandas")
    case (Inl e)
    then have "validate_compatible c [schema] ignore_pandas = Inl e"
      by (simp add: validate_compatible_def)
    moreover from Inl have "e \<noteq> SchemaViolation o1 o2"
      using SchemaWrapper_init_errors [of c _ "origin schema" e]
      by (auto simp: determine_schemas_to_compare_def resolver_step_def resolver_init_def
          prepare_current_def Let_def split: sum.splits option.splits if_splits)
    ultimately show ?thesis by simp
  next
    case (Inr r)
    obtain ref pending where r: "r = (ref, pending)" by (cases r)
    from resolver_result_shape [of c "[schema]" ignore_pandas ref pending] Inr r
    obtain w where "ref = Some w" "pending = []" by auto
    with Inr r show ?thesis
      using SchemaWrapper_init_errors [of c "internal w" _ "SchemaViolation o1 o2"]
      by (auto simp: validate_compatible_def with_origin_def split: sum.splits)
  qed
qed

theorem resolver_pending_length_witness:
  "determine_schemas_to_compare example_compat [example_X, example_Y] False
     = Inr (Some example_XY_healed, [(example_Y, [''b''])])
   \<and> Some example_XY_healed \<noteq> None
   \<and> length [(example_Y, [''b''])] = length [example_X, example_Y] - 1
   \<and> determine_schemas_to_compare example_compat [example_X] False = Inr (Some example_X, [])
   \<and> validate_compatible example_compat [example_X] False \<noteq> Inl (SchemaViolation {} {})"
proof -
  have h1: "determine_schemas_to_compare example_compat [example_X] False
     = Inr (Some example_X, [])"
    by code_simp
  from resolver_pending_length [of example_compat "[example_X, example_Y]" False
      "Some example_XY_healed" "[(example_Y, [''b''])]" example_X "Some example_X" "[]" "{}" "{}"]
    example_XY_resolved h1
  show ?thesis by simp
qed

section \<open>Objects returned by the constructor\<close>

lemma count_list_map_name:
  "count_list (map name fs) n = length (filter (\<lambda>f. name f = n) fs)"
  by (induction fs) auto

lemma length_indices_of:
  "length (indices_of s n) = count_list (schema_names s) n"
proof -
  let ?fs = "schema_fields s"
  have "filter (\<lambda>f. name f = n) (map ((!) ?fs) [0..<length ?fs])
        = map ((!) ?fs) (filter (\<lambda>i. name (?fs ! i) = n) [0..<length ?fs])"
    by (simp add: filter_map comp_def)
  then have "length (filter (\<lambda>f. name f = n) ?fs) = length (indices_of s n)"
    by (simp add: map_nth indices_of_def del: filter_map)
  then show ?thesis by (simp add: schema_names_def count_list_map_name)
qed

lemma get_field_index_count:
  "(get_field_index s n \<ge> 0) = (count_list (schema_names s) n = 1)"
proof -
  have "(get_field_index s n \<ge> 0) = (length (indices_of s n) = 1)"
    by (auto simp: get_field_index_def split: list.splits)
  then show ?thesis by (simp add: length_indices_of)
qed


lemma count_list_remove_nth:
  assumes "i < length xs"
  shows "count_list (take i xs @ drop (Suc i) xs) y
         = count_list xs y - (if xs ! i = y then 1 else 0)"
proof -
  have "xs = take i xs @ xs ! i # drop (Suc i) xs"
    using assms by (rule id_take_nth_drop)
  then have "count_list xs y = count_list (take i xs @ xs ! i # drop (Suc i) xs) y"
    by simp
  also have "\<dots> = count_list (take i xs) y + (if xs ! i = y then 1 else 0)
      + count_list (drop (Suc i) xs) y"
    by simp
  finally show ?thesis by simp
qed

lemma schema_compat_settled:
  assumes "schema_settled c s"
  shows "schema_compat c s = Inr s"
proof (cases "metadata s")
  case None
  then show ?thesis by (simp add: schema_compat_def)
next
  case (Some md)
  with assms obtain pm where pm: "pandas md = Some pm" and oth: "others md = []"
    and len: "length (index_columns pm) \<le> 1"
    and st: "\<forall>x \<in> set (index_columns pm). index_col_settled c s x"
    by (auto simp: schema_settled_def split: option.splits)
  have fold: "schema_compat_loop c (s, pm) (enumerate 0 (index_columns pm)) = Inr (s, pm)"
  proof (cases "index_columns pm")
    case Nil
    then show ?thesis by simp
  next
    case (Cons x xs)
    with len have xs: "xs = []" by simp
    from st Cons have "index_col_settled c s x" by simp
    then have "schema_compat_step c (s, pm) (0, x) = Inr (s, pm)"
      by (auto simp: index_col_settled_def schema_compat_step_def Let_def
          split: if_splits index_col.splits)
    with Cons xs show ?thesis by simp
  qed
  have "md = \<lparr>pandas = Some pm, others = []\<rparr>" using pm oth by (cases md) simp
  with Some have "\<lparr>schema_fields = schema_fields s,
      metadata = Some \<lparr>pandas = Some pm, others = []\<rparr>\<rparr> = s" by (cases s) simp
  with Some pm len fold show ?thesis
    by (simp add: schema_compat_def)
qed


lemma get_field_index_names_cong:
  "schema_names s = schema_names s' \<Longrightarrow> get_field_index s n = get_field_index s' n"
proof -
  assume eq: "schema_names s = schema_names s'"
  then have len: "length (schema_fields s) = length (schema_fields s')"
    by (metis length_map schema_names_def)
  have "\<And>i. i < length (schema_fields s) \<Longrightarrow>
      name (schema_fields s ! i) = name (schema_fields s' ! i)"
    using eq len by (metis nth_map schema_names_def)
  then have "indices_of s n = indices_of s' n"
    unfolding indices_of_def len [symmetric] by (intro filter_cong) auto
  then show ?thesis by (simp add: get_field_index_def)
qed

lemma index_col_settled_names_cong:
  "schema_names s = schema_names s' \<Longrightarrow> index_col_settled c s x = index_col_settled c s' x"
  using get_field_index_names_cong [of s s']
  by (auto simp: index_col_settled_def split: index_col.splits)

lemma schema_settled_cong:
  "schema_names s = schema_names s' \<Longrightarrow> metadata s = metadata s' \<Longrightarrow>
     schema_settled c s = schema_settled c s'"
  using index_col_settled_names_cong [of s s' c]
  by (auto simp: schema_settled_def split: option.splits)

lemma get_field_index_removed:
  assumes "get_field_index s n \<ge> 0"
    and "schema_fields s' = take (nat (get_field_index s n)) (schema_fields s)
           @ drop (Suc (nat (get_field_index s n))) (schema_fields s)"
  shows "get_field_index s' n < 0"
proof -
  let ?i = "nat (get_field_index s n)"
  from assms(1) obtain i where i: "indices_of s n = [i]"
    by (auto simp: get_field_index_def split: list.splits)
  then have gi: "get_field_index s n = int i" by (simp add: get_field_index_def)
  have "set (indices_of s n) = {i}" using i by simp
  then have il: "i < length (schema_fields s)" and nm: "name (schema_fields s ! i) = n"
    by (auto simp: indices_of_def)
  from assms(1) have c1: "count_list (schema_names s) n = 1"
    by (simp add: get_field_index_count)
  from assms(2) gi have
    "schema_names s' = take i (schema_names s) @ drop (Suc i) (schema_names s)"
    by (simp add: schema_names_def take_map drop_map)
  with count_list_remove_nth [of i "schema_names s" n] il nm c1
  have "count_list (schema_names s') n = 0" by (simp add: schema_names_def)
  then have "\<not> get_field_index s' n \<ge> 0" by (simp add: get_field_index_count)
  then show ?thesis by simp
qed

lemma schema_compat_result_settled:
  assumes "schema_compat c s = Inr s'"
  shows "schema_settled c s'"
proof (cases "metadata s")
  case None
  with assms show ?thesis by (auto simp: schema_compat_def schema_settled_def)
next
  case (Some md)
  with assms obtain pm where pm: "pandas md = Some pm"
    by (auto simp: schema_compat_def split: option.splits)
  from assms Some pm have len: "length (index_columns pm) \<le> 1"
    by (auto simp: schema_compat_def split: if_splits)
  show ?thesis
  proof (cases "index_columns pm")
    case Nil
    with assms Some pm show ?thesis by (auto simp: schema_compat_def schema_settled_def)
  next
    case (Cons x xs)
    with len have xs: "xs = []" by simp
    from assms Some pm Cons xs obtain s1 pm1 where
      st: "schema_compat_step c (s, pm) (0, x) = Inr (s1, pm1)"
      and s': "s' = \<lparr>schema_fields = schema_fields s1,
        metadata = Some \<lparr>pandas = Some pm1, others = []\<rparr>\<rparr>"
      by (auto simp: schema_compat_def split: sum.splits if_splits)
    have "length (index_columns pm1) \<le> 1 \<and>
          (\<forall>y \<in> set (index_columns pm1). index_col_settled c s1 y)"
    proof (cases "ARROW_LARGER_EQ_0130 c")
      case new: True
      show ?thesis
      proof (cases x)
        case (IndexName n)
        show ?thesis
        proof (cases "get_field_index s n \<ge> 0")
          case True
          with get_field_index_nonneg [OF True] have
            "get_field_index s n < int (length (schema_fields s))" by linarith
          with st new IndexName True have
            s1: "schema_fields s1 = take (nat (get_field_index s n)) (schema_fields s)
                   @ drop (Suc (nat (get_field_index s n))) (schema_fields s)"
            and pm1: "pm1 = pm"
            by (auto simp: schema_compat_step_def schema_remove_def Let_def)
          from get_field_index_removed [OF True s1] pm1 Cons xs new IndexName
          show ?thesis by (simp add: index_col_settled_def)
        next
          case False
          with st new IndexName have "s1 = s" "pm1 = pm"
            by (auto simp: schema_compat_step_def Let_def)
          with False Cons xs new IndexName show ?thesis
            by (simp add: index_col_settled_def)
        qed
      next
        case IndexRange
        with st new have "s1 = s" "pm1 = pm"
          by (auto simp: schema_compat_step_def)
        with Cons xs new IndexRange show ?thesis by (simp add: index_col_settled_def)
      qed
    next
      case old: False
      show ?thesis
      proof (cases x)
        case (IndexName n)
        with st old have "s1 = s" "pm1 = pm"
          by (auto simp: schema_compat_step_def)
        with Cons xs old IndexName show ?thesis by (simp add: index_col_settled_def)
      next
        case IndexRange
        with st old have
          "index_columns pm1 = (index_columns pm)[0 := IndexName (''__index_level_'' @ str_nat 0 @ ''__'')]"
          by (auto simp: schema_compat_step_def Let_def)
        with Cons xs old show ?thesis by (simp add: index_col_settled_def)
      qed
    qed
    moreover have "schema_names s' = schema_names s1"
      by (simp add: s' schema_names_def)
    then have "\<And>y. index_col_settled c s' y = index_col_settled c s1 y"
      by (rule index_col_settled_names_cong)
    moreover have "metadata s' = Some \<lparr>pandas = Some pm1, others = []\<rparr>"
      by (simp add: s')
    ultimately show ?thesis
      by (simp add: schema_settled_def)
  qed
qed

lemma is_wrapper_settled: "is_wrapper c w = schema_settled c (internal w)"
proof
  assume "is_wrapper c w"
  then obtain x where x: "schema_compat c (internal w) = Inr x"
    and w: "\<lparr>internal = x, origin = origin w\<rparr> = w"
    by (auto simp: is_wrapper_def SchemaWrapper_init_def split: sum.splits)
  from w have "internal \<lparr>internal = x, origin = origin w\<rparr> = internal w" by simp
  then have "x = internal w" by simp
  with x have "schema_compat c (internal w) = Inr (internal w)" by simp
  from schema_compat_result_settled [OF this] show "schema_settled c (internal w)" .
next
  assume "schema_settled c (internal w)"
  from schema_compat_settled [OF this] show "is_wrapper c w"
    by (simp add: is_wrapper_def SchemaWrapper_init_def)
qed

lemma SchemaWrapper_init_is_wrapper:
  "SchemaWrapper_init c s orig = Inr w \<Longrightarrow> is_wrapper c w"
  using schema_compat_result_settled
  by (auto simp: is_wrapper_settled SchemaWrapper_init_def split: sum.splits)

lemma SchemaWrapper_init_settled:
  "schema_settled c s \<Longrightarrow> SchemaWrapper_init c s orig = Inr \<lparr>internal = s, origin = orig\<rparr>"
  by (simp add: SchemaWrapper_init_def schema_compat_settled)

section \<open>\<^verbatim>\<open>_strip_columns_from_schema\<close>\<close>

lemma get_field_index_in_names:
  "get_field_index s n \<ge> 0 \<Longrightarrow> n \<in> set (schema_names s)"
proof -
  assume "get_field_index s n \<ge> 0"
  from get_field_index_nonneg [OF this] have
    il: "nat (get_field_index s n) < length (schema_fields s)"
    and nm: "name (schema_fields s ! nat (get_field_index s n)) = n" by auto
  from il have "schema_fields s ! nat (get_field_index s n) \<in> set (schema_fields s)"
    by (rule nth_mem)
  then have "name (schema_fields s ! nat (get_field_index s n)) \<in> name ` set (schema_fields s)"
    by (rule imageI)
  with nm show ?thesis by (simp add: schema_names_def)
qed

lemma remove_keeps_settled:
  assumes st: "schema_settled c s" and ix: "get_field_index s m \<ge> 0"
  shows "schema_settled c (s\<lparr>schema_fields :=
           take (nat (get_field_index s m)) (schema_fields s)
           @ drop (Suc (nat (get_field_index s m))) (schema_fields s)\<rparr>)"
    (is "schema_settled c ?s'")
proof -
  let ?i = "nat (get_field_index s m)"
  from get_field_index_nonneg [OF ix] have il: "?i < length (schema_fields s)"
    and nm: "name (schema_fields s ! ?i) = m" by auto
  have names': "schema_names ?s' = take ?i (schema_names s) @ drop (Suc ?i) (schema_names s)"
    by (simp add: schema_names_def take_map drop_map)
  have keep: "index_col_settled c ?s' x" if x: "index_col_settled c s x" for x
  proof (cases "ARROW_LARGER_EQ_0130 c")
    case False
    with x show ?thesis by (simp add: index_col_settled_def)
  next
    case True
    show ?thesis
    proof (cases x)
      case IndexRange
      with True show ?thesis by (simp add: index_col_settled_def)
    next
      case (IndexName n)
      with True x have neg: "\<not> get_field_index s n \<ge> 0"
        by (simp add: index_col_settled_def)
      with ix have "n \<noteq> m" by auto
      with count_list_remove_nth [of ?i "schema_names s" n] il nm names'
      have "count_list (schema_names ?s') n = count_list (schema_names s) n"
        by (simp add: schema_names_def)
      with neg have "\<not> get_field_index ?s' n \<ge> 0"
        by (simp add: get_field_index_count)
      with True IndexName show ?thesis by (simp add: index_col_settled_def)
    qed
  qed
  from st keep show ?thesis
    by (auto simp: schema_settled_def split: option.splits)
qed

lemma wrapper_remove_found:
  assumes w: "is_wrapper c w" and ix: "get_field_index (internal w) m \<ge> 0"
  shows "wrapper_remove c w (get_field_index (internal w) m) =
           Inr \<lparr>internal = (internal w)\<lparr>schema_fields :=
                   take (nat (get_field_index (internal w) m)) (schema_fields (internal w))
                   @ drop (Suc (nat (get_field_index (internal w) m)))
                       (schema_fields (internal w))\<rparr>,
                origin = origin w\<rparr>"
proof -
  from get_field_index_nonneg [OF ix] ix have
    lt: "get_field_index (internal w) m < int (length (schema_fields (internal w)))"
    by linarith
  from w have "schema_settled c (internal w)" by (simp add: is_wrapper_settled)
  from remove_keeps_settled [OF this ix] ix lt show ?thesis
    by (simp add: wrapper_remove_def schema_remove_def SchemaWrapper_init_settled)
qed

lemma strip_loop_refused:
  "is_wrapper c stripped \<Longrightarrow>
   set (schema_names (internal stripped)) \<subseteq> set (schema_names (internal schema)) \<Longrightarrow>
   n \<in> set field_names \<Longrightarrow> n \<notin> set (schema_names (internal schema)) \<Longrightarrow>
   \<exists>m \<in> set field_names. strip_loop c schema stripped field_names = Inr (schema, [m])"
proof (induction field_names arbitrary: stripped)
  case Nil
  then show ?case by simp
next
  case (Cons n' rest)
  let ?ix = "get_field_index (internal stripped) n'"
  show ?case
  proof (cases "?ix \<ge> 0")
    case False
    then show ?thesis by (simp add: Let_def)
  next
    case True
    let ?s' = "\<lparr>internal = (internal stripped)\<lparr>schema_fields :=
                   take (nat ?ix) (schema_fields (internal stripped))
                   @ drop (Suc (nat ?ix)) (schema_fields (internal stripped))\<rparr>,
                origin = origin stripped\<rparr>"
    from wrapper_remove_found [OF Cons.prems(1) True] have
      rm: "wrapper_remove c stripped ?ix = Inr ?s'" .
    from Cons.prems(1) have "schema_settled c (internal stripped)"
      by (simp add: is_wrapper_settled)
    from remove_keeps_settled [OF this True] have w': "is_wrapper c ?s'"
      by (simp add: is_wrapper_settled)
    have sub: "set (schema_names (internal ?s')) \<subseteq> set (schema_names (internal schema))"
      using Cons.prems(2)
      by (auto simp: schema_names_def dest: in_set_takeD in_set_dropD)
    from get_field_index_in_names [OF True] Cons.prems(2,4) have "n' \<noteq> n" by auto
    with Cons.prems(3) have "n \<in> set rest" by simp
    from Cons.IH [OF w' sub this Cons.prems(4)] True rm show ?thesis
      by (auto simp: Let_def)
  qed
qed

text \<open>
  Claim C4. For a schema object and a list of names of which one is absent from the
  schema, \<^verbatim>\<open>_strip_columns_from_schema\<close> returns the schema it was given, with no
  field removed whatever names came earlier in the list, and logs one warning; it does
  not raise.
\<close>

theorem strip_refused_unchanged:
  assumes "is_wrapper c schema" and "n \<in> set field_names"
    and "n \<notin> set (schema_names (internal schema))"
  shows "\<exists>m \<in> set field_names.
           strip_columns_from_schema c schema field_names = Inr (schema, [m])"
  unfolding strip_columns_from_schema_def
  using strip_loop_refused [OF assms(1) subset_refl assms(2,3)] .

theorem strip_refused_unchanged_witness:
  "is_wrapper example_compat example_X \<and> ''zz'' \<in> set [''a'', ''zz'']
   \<and> ''zz'' \<notin> set (schema_names (internal example_X))
   \<and> strip_columns_from_schema example_compat example_X [''a'', ''zz'']
       = Inr (example_X, [''zz''])"
proof -
  have 1: "is_wrapper example_compat example_X" by code_simp
  have 2: "''zz'' \<in> set [''a'', ''zz'']" by simp
  have 3: "''zz'' \<notin> set (schema_names (internal example_X))" by code_simp
  have 4: "strip_columns_from_schema example_compat example_X [''a'', ''zz'']
       = Inr (example_X, [''zz''])" by code_simp
  from strip_refused_unchanged [OF 1 2 3] 1 2 3 4 show ?thesis by simp
qed

section \<open>Origins in \<^verbatim>\<open>validate_compatible\<close>\<close>

lemma SchemaWrapper_init_origin:
  "SchemaWrapper_init c s orig = Inr w \<Longrightarrow> origin w = orig"
  by (auto simp: SchemaWrapper_init_def split: sum.splits)

lemma schema_compat_no_violation: "schema_compat c s \<noteq> Inl (SchemaViolation a b)"
  using schema_compat_errors [of c s "SchemaViolation a b"] by auto

lemma SchemaWrapper_init_no_violation:
  "SchemaWrapper_init c s orig \<noteq> Inl (SchemaViolation a b)"
  using schema_compat_no_violation [of c s a b]
  by (auto simp: SchemaWrapper_init_def split: sum.splits)

lemma wrapper_remove_no_violation: "wrapper_remove c w i \<noteq> Inl (SchemaViolation a b)"
  using SchemaWrapper_init_no_violation
  by (auto simp: wrapper_remove_def schema_remove_def split: sum.splits if_splits)

lemma strip_loop_no_violation:
  "strip_loop c schema stripped ns \<noteq> Inl (SchemaViolation a b)"
proof (induction ns arbitrary: stripped)
  case Nil
  then show ?case by simp
next
  case (Cons n ns)
  then show ?case
    using wrapper_remove_no_violation [of c stripped "get_field_index (internal stripped) n" a b]
    by (auto simp: Let_def split: sum.splits)
qed

lemma to_compare_no_violation: "to_compare c schema ns \<noteq> Inl (SchemaViolation a b)"
  using strip_loop_no_violation [of c schema schema ns a b] SchemaWrapper_init_no_violation
  by (auto simp: to_compare_def strip_columns_from_schema_def remove_metadata_def
      split: sum.splits)

lemma diff_schemas_errors:
  "diff_schemas c x y = Inl e \<Longrightarrow> e = UnpackValueError \<or> e = KeyError"
  by (auto simp: diff_schemas_def split: if_splits)

lemma compare_to_reference_violation:
  assumes "compare_to_reference c ref p = Inl (SchemaViolation a b)"
  shows "a = origin (fst p) \<and> b = origin ref"
proof -
  obtain current null_columns where p: "p = (current, null_columns)" by (cases p)
  from assms p to_compare_no_violation [of c ref null_columns a b]
    to_compare_no_violation [of c current null_columns a b]
    diff_schemas_errors [of c ref current "SchemaViolation a b"]
  show ?thesis
    by (auto simp: compare_to_reference_def split: sum.splits if_splits)
qed

lemma compare_all_violation:
  "compare_all c ref ps = Inl (SchemaViolation a b) \<Longrightarrow>
     b = origin ref \<and> a \<in> (\<lambda>p. origin (fst p)) ` set ps"
proof (induction ps)
  case Nil
  then show ?case by simp
next
  case (Cons p ps)
  show ?case
  proof (cases "compare_to_reference c ref p")
    case (Inl e)
    with Cons.prems have "compare_to_reference c ref p = Inl (SchemaViolation a b)" by simp
    from compare_to_reference_violation [OF this] show ?thesis by simp
  next
    case (Inr u)
    with Cons.prems have "compare_all c ref ps = Inl (SchemaViolation a b)" by simp
    from Cons.IH [OF this] show ?thesis by simp
  qed
qed

lemma foldl_union: "foldl (\<union>) a xs = a \<union> \<Union> (set xs)"
  by (induction xs arbitrary: a) auto

lemma union_origins_eq:
  "union_origins ref pending = origin ref \<union> (\<Union>p \<in> set pending. origin (fst p))"
  by (simp add: union_origins_def foldl_union)


lemma prepare_current_wrapper:
  assumes "prepare_current c hp schema = Inr current" and "is_wrapper c schema"
  shows "is_wrapper c current \<and> origin current = origin schema"
proof (cases hp)
  case False
  with assms show ?thesis by (simp add: prepare_current_def)
next
  case True
  with assms(1) obtain s where "SchemaWrapper_init c s (origin schema) = Inr current"
    by (auto simp: prepare_current_def split: option.splits)
  with SchemaWrapper_init_is_wrapper SchemaWrapper_init_origin show ?thesis by blast
qed

lemma swap_fields_by_name_wrapper:
  assumes "swap_fields_by_name c ref cur col = Inr ref'"
  shows "is_wrapper c ref' \<and> origin ref' = origin ref"
proof -
  from assms obtain s where "SchemaWrapper_init c s (origin ref) = Inr ref'"
    by (auto simp: swap_fields_by_name_def wrapper_set_def Let_def split: sum.splits)
  with SchemaWrapper_init_is_wrapper SchemaWrapper_init_origin show ?thesis by blast
qed

lemma heal_wrapper:
  "heal c ref cur R cols = Inr (ref', R') \<Longrightarrow> is_wrapper c ref \<Longrightarrow>
     is_wrapper c ref' \<and> origin ref' = origin ref"
proof (induction cols arbitrary: ref R)
  case Nil
  then show ?case by simp
next
  case (Cons col cols)
  from Cons.prems(1) obtain ref1 where
    sw: "swap_fields_by_name c ref cur col = Inr ref1"
    and rest: "heal c ref1 cur (removeAll col R) cols = Inr (ref', R')"
    by (auto split: sum.splits)
  from swap_fields_by_name_wrapper [OF sw] have "is_wrapper c ref1" "origin ref1 = origin ref"
    by auto
  with Cons.IH [OF rest] show ?case by simp
qed

lemma resolver_step_wrappers:
  assumes inv: "resolver_wrappers c origins st"
    and sch: "is_wrapper c schema" "origin schema \<in> origins"
    and step: "resolver_step c hp st schema = Inr st'"
  shows "resolver_wrappers c origins st'"
proof -
  from step obtain current where prep: "prepare_current c hp schema = Inr current"
    by (auto simp: resolver_step_def split: sum.splits)
  from prepare_current_wrapper [OF prep sch(1)] sch(2) have
    cur: "is_wrapper c current" "origin current \<in> origins" by auto
  let ?N = "null_columns_of current"
  let ?R = "null_cols_in_reference st"
  show ?thesis
  proof (cases "reference st")
    case None
    with step prep have "st' = st\<lparr>reference := Some current, null_cols_in_reference := ?N\<rparr>"
      by (simp add: resolver_step_def Let_def)
    with inv cur show ?thesis by (simp add: resolver_wrappers_def)
  next
    case (Some ref)
    with inv have ref: "is_wrapper c ref" "origin ref \<in> origins"
      and pend: "\<forall>p \<in> set (schemas_to_evaluate st). is_wrapper c (fst p) \<and> origin (fst p) \<in> origins"
      by (auto simp: resolver_wrappers_def)
    consider (a) "issubset ?R ?N"
      | (b) "\<not> issubset ?R ?N" "issubset ?N ?R"
      | (c) "\<not> issubset ?R ?N" "\<not> issubset ?N ?R" "length ?N < length ?R"
      | (d) "\<not> issubset ?R ?N" "\<not> issubset ?N ?R" "\<not> length ?N < length ?R"
      by blast
    then show ?thesis
    proof cases
      case a
      with step prep Some have
        "st' = st\<lparr>schemas_to_evaluate := schemas_to_evaluate st @ [(current, ?N)]\<rparr>"
        by (simp add: resolver_step_def Let_def)
      with inv cur show ?thesis by (auto simp: resolver_wrappers_def)
    next
      case b
      with step prep Some have
        "st' = \<lparr>reference = Some current, null_cols_in_reference = ?N,
                schemas_to_evaluate = schemas_to_evaluate st @ [(ref, ?R)]\<rparr>"
        by (simp add: resolver_step_def Let_def)
      with pend ref cur show ?thesis by (auto simp: resolver_wrappers_def)
    next
      case c
      with step prep Some obtain ref2 R2 where
        h: "heal c current ref ?N (set_difference ?N ?R) = Inr (ref2, R2)"
        and st': "st' = \<lparr>reference = Some ref2, null_cols_in_reference = R2,
                schemas_to_evaluate = schemas_to_evaluate st @ [(ref, ?R)]\<rparr>"
        by (auto simp: resolver_step_def Let_def split: sum.splits)
      from heal_wrapper [OF h cur(1)] cur(2) have "is_wrapper c ref2" "origin ref2 \<in> origins"
        by auto
      with pend ref st' show ?thesis by (auto simp: resolver_wrappers_def)
    next
      case d
      with step prep Some obtain ref2 R2 where
        h: "heal c ref current ?R (set_difference ?R ?N) = Inr (ref2, R2)"
        and st': "st' = \<lparr>reference = Some ref2, null_cols_in_reference = R2,
                schemas_to_evaluate = schemas_to_evaluate st @ [(current, ?N)]\<rparr>"
        by (auto simp: resolver_step_def Let_def split: sum.splits)
      from heal_wrapper [OF h ref(1)] ref(2) have "is_wrapper c ref2" "origin ref2 \<in> origins"
        by auto
      with pend cur st' show ?thesis by (auto simp: resolver_wrappers_def)
    qed
  qed
qed

lemma resolver_loop_wrappers:
  "resolver_wrappers c origins st \<Longrightarrow>
   \<forall>schema \<in> set schemas. is_wrapper c schema \<and> origin schema \<in> origins \<Longrightarrow>
   resolver_loop c hp st schemas = Inr st' \<Longrightarrow> resolver_wrappers c origins st'"
proof (induction schemas arbitrary: st)
  case Nil
  then show ?case by simp
next
  case (Cons schema schemas)
  from Cons.prems(3) obtain st1 where
    s1: "resolver_step c hp st schema = Inr st1"
    and rest: "resolver_loop c hp st1 schemas = Inr st'"
    by (auto split: sum.splits)
  from Cons.prems(2) have sch: "is_wrapper c schema" "origin schema \<in> origins"
    and tl: "\<forall>schema \<in> set schemas. is_wrapper c schema \<and> origin schema \<in> origins"
    by auto
  from Cons.IH [OF resolver_step_wrappers [OF Cons.prems(1) sch s1] tl rest] show ?case .
qed

lemma resolver_result_wrappers:
  assumes "\<forall>schema \<in> set schemas. is_wrapper c schema"
    and "determine_schemas_to_compare c schemas ignore_pandas = Inr (Some ref, pending)"
  shows "is_wrapper c ref \<and> origin ref \<in> origin ` set schemas
         \<and> (\<forall>p \<in> set pending. is_wrapper c (fst p) \<and> origin (fst p) \<in> origin ` set schemas)"
proof -
  from assms(2) obtain st where
    loop: "resolver_loop c (pandas_in_schemas schemas \<and> \<not> ignore_pandas) resolver_init schemas
             = Inr st"
    and ref: "reference st = Some ref" and pend: "schemas_to_evaluate st = pending"
    by (auto simp: determine_schemas_to_compare_def Let_def split: sum.splits if_splits)
  have 0: "resolver_wrappers c (origin ` set schemas) resolver_init"
    by (simp add: resolver_wrappers_def resolver_init_def)
  from assms(1) have 1: "\<forall>schema \<in> set schemas.
      is_wrapper c schema \<and> origin schema \<in> origin ` set schemas" by simp
  from resolver_loop_wrappers [OF 0 1 loop] ref pend show ?thesis
    by (simp add: resolver_wrappers_def)
qed

text \<open>
  When the resolver has returned a reference and every comparison passes,
  \<^verbatim>\<open>validate_compatible\<close> returns the reference with its origin replaced by the union
  of its own origin and the origins of all pending schemas. A schema violation, when
  one is raised, names the origin of the reference and of the pending schema as they
  were before any union: each is the origin of one input schema.
\<close>

lemma validate_compatible_origins:
  assumes wr: "\<forall>schema \<in> set schemas. is_wrapper c schema"
    and det: "determine_schemas_to_compare c schemas ignore_pandas = Inr (Some ref, pending)"
  shows "(compare_all c ref pending = Inr () \<longrightarrow>
            validate_compatible c schemas ignore_pandas =
              Inr (Some (ref\<lparr>origin := origin ref \<union> (\<Union>p \<in> set pending. origin (fst p))\<rparr>)))
         \<and> (\<forall>a b. validate_compatible c schemas ignore_pandas = Inl (SchemaViolation a b) \<longrightarrow>
               b = origin ref \<and> a \<in> (\<lambda>p. origin (fst p)) ` set pending
               \<and> b \<in> origin ` set schemas \<and> a \<in> origin ` set schemas)"
proof (intro conjI allI impI)
  assume ok: "compare_all c ref pending = Inr ()"
  from resolver_result_wrappers [OF wr det] have "schema_settled c (internal ref)"
    by (simp add: is_wrapper_settled)
  then have "with_origin c ref (union_origins ref pending) =
      Inr \<lparr>internal = internal ref, origin = union_origins ref pending\<rparr>"
    by (simp add: with_origin_def SchemaWrapper_init_settled)
  moreover have "\<lparr>internal = internal ref, origin = union_origins ref pending\<rparr>
      = ref\<lparr>origin := origin ref \<union> (\<Union>p \<in> set pending. origin (fst p))\<rparr>"
    by (cases ref) (simp add: union_origins_eq)
  ultimately show "validate_compatible c schemas ignore_pandas =
      Inr (Some (ref\<lparr>origin := origin ref \<union> (\<Union>p \<in> set pending. origin (fst p))\<rparr>))"
    using det ok by (simp add: validate_compatible_def)
next
  fix a b
  assume v: "validate_compatible c schemas ignore_pandas = Inl (SchemaViolation a b)"
  have "compare_all c ref pending = Inl (SchemaViolation a b)"
  proof (cases "compare_all c ref pending")
    case (Inl e)
    with v det show ?thesis by (simp add: validate_compatible_def)
  next
    case (Inr u)
    with v det SchemaWrapper_init_no_violation [of c "internal ref" "union_origins ref pending" a b]
    show ?thesis
      by (auto simp: validate_compatible_def with_origin_def split: sum.splits)
  qed
  from compare_all_violation [OF this] have
    ab: "b = origin ref" "a \<in> (\<lambda>p. origin (fst p)) ` set pending" by auto
  with resolver_result_wrappers [OF wr det]
  show "b = origin ref" "a \<in> (\<lambda>p. origin (fst p)) ` set pending"
    "b \<in> origin ` set schemas" "a \<in> origin ` set schemas"
    by auto
qed

lemma validate_compatible_origins_example:
  "is_wrapper example_compat example_X \<and> is_wrapper example_compat example_Y
   \<and> determine_schemas_to_compare example_compat [example_X, example_Y] False
       = Inr (Some example_XY_healed, [(example_Y, [''b''])])
   \<and> compare_all example_compat example_XY_healed [(example_Y, [''b''])] = Inr ()
   \<and> validate_compatible example_compat [example_X, example_Y] False
       = Inr (Some (example_XY_healed\<lparr>origin := {''X'', ''Y''}\<rparr>))"
proof -
  have wX: "is_wrapper example_compat example_X" by code_simp
  have wY: "is_wrapper example_compat example_Y" by code_simp
  have wr: "\<forall>schema \<in> set [example_X, example_Y]. is_wrapper example_compat schema"
    using wX wY by simp
  have ok: "compare_all example_compat example_XY_healed [(example_Y, [''b''])] = Inr ()"
    by code_simp
  have un: "origin example_XY_healed \<union> (\<Union>p \<in> set [(example_Y, [''b''])]. origin (fst p))
      = {''X'', ''Y''}"
    by (auto simp: example_XY_healed_def example_Y_def example_schema_def)
  from validate_compatible_origins [OF wr example_XY_resolved, THEN conjunct1, THEN mp, OF ok]
  have v: "validate_compatible example_compat [example_X, example_Y] False
       = Inr (Some (example_XY_healed\<lparr>origin := {''X'', ''Y''}\<rparr>))"
    unfolding un .
  show ?thesis
    by (intro conjI) (rule wX wY example_XY_resolved ok v)+
qed

lemma example_AB_resolved:
  "determine_schemas_to_compare example_compat [example_A, example_B] False
     = Inr (Some example_A, [(example_B, [])])"
  by code_simp

text \<open>
  Claim C5 fails in the code where the error of a failed comparison is concerned. The
  schemas \<^verbatim>\<open>example_A\<close> (column \<^verbatim>\<open>x\<close> of type \<^verbatim>\<open>int64\<close>, origin \<^verbatim>\<open>A\<close>) and \<^verbatim>\<open>example_B\<close>
  (column \<^verbatim>\<open>x\<close> of type \<^verbatim>\<open>string\<close>, origin \<^verbatim>\<open>B\<close>) have no metadata. The resolver
  returns \<^verbatim>\<open>example_A\<close> as reference and \<^verbatim>\<open>example_B\<close> as the one pending schema, and
  their comparison fails. Before the message with the two origins is built,
  \<^verbatim>\<open>_diff_schemas\<close> unpacks the split of the text of the reference at its metadata
  section; the reference has none, and the \<^verbatim>\<open>ValueError\<close> of the unpacking is what
  \<^verbatim>\<open>validate_compatible\<close> raises. It carries no origin, neither that of \<^verbatim>\<open>example_A\<close> nor
  that of \<^verbatim>\<open>example_B\<close>.
\<close>

theorem validate_compatible_unpack_error:
  "is_wrapper example_compat example_A \<and> is_wrapper example_compat example_B
   \<and> to_compare example_compat example_A [] \<noteq> to_compare example_compat example_B []
   \<and> diff_schemas example_compat example_A example_B = Inl UnpackValueError
   \<and> compare_to_reference example_compat example_A (example_B, []) = Inl UnpackValueError
   \<and> validate_compatible example_compat [example_A, example_B] False = Inl UnpackValueError
   \<and> validate_compatible example_compat [example_A, example_B] False
       \<noteq> Inl (SchemaViolation (origin example_B) (origin example_A))"
  by code_simp

section \<open>The mixed-metadata error\<close>



lemma resolver_loop_append:
  "resolver_loop c hp st (pre @ rest) =
     (case resolver_loop c hp st pre of
        Inl e \<Rightarrow> Inl e
      | Inr st' \<Rightarrow> resolver_loop c hp st' rest)"
  by (induction pre arbitrary: st) (auto split: sum.splits)








lemma prepare_current_lacking:
  "\<not> has_pandas_key schema \<Longrightarrow> prepare_current c True schema = Inl MixedPandasError"
  by (auto simp: prepare_current_def has_pandas_key_def split: option.splits)











section \<open>Columns missing from a schema in \<^verbatim>\<open>validate_shared_columns\<close>\<close>

text \<open>
  Claim C3. The docstring of \<^verbatim>\<open>validate_shared_columns\<close> promises that columns which
  do not exist in a schema are ignored for it. With pandas metadata the loop runs over
  the descriptors, and a descriptor whose field is not in the schema is not skipped:
  \<^verbatim>\<open>get_field_index\<close> returns \<^verbatim>\<open>-1\<close> and \<^verbatim>\<open>schema[-1]\<close> is the last field. The two
  schemas below come from data frames with the same named index; they share the column
  \<^verbatim>\<open>x\<close> and agree on it, and the check raises for the column \<^verbatim>\<open>idx\<close> that neither
  of them has as a field.
\<close>

theorem shared_columns_absent_column:
  "SchemaWrapper_init example_compat example_raw_S1 {''S1''} = Inr example_S1
   \<and> SchemaWrapper_init example_compat example_raw_S2 {''S2''} = Inr example_S2
   \<and> get_field_index (internal example_S1) ''idx'' = - 1
   \<and> get_field_index (internal example_S2) ''idx'' = - 1
   \<and> validate_shared_columns [example_S1, example_S2] False
       = Inl (IncompatibleColumn ''idx'' (example_field ''x'' PaInt64, ''idx'')
               (example_field ''y'' PaString, ''idx''))"
  by code_simp

section \<open>Serialisation round trip\<close>

lemma parquet_fields_member:
  assumes "parquet_fields fs = Inr fs'" and "f \<in> set fs"
  shows "\<exists>t'. parquet_type (ftype f) = Inr t' \<and> f\<lparr>ftype := t'\<rparr> \<in> set fs'"
  using assms
proof (induction fs arbitrary: fs')
  case Nil
  then show ?case by simp
next
  case (Cons g gs)
  from Cons.prems(1) obtain t' gs' where
    g: "parquet_type (ftype g) = Inr t'" and gs: "parquet_fields gs = Inr gs'"
    and fs': "fs' = g\<lparr>ftype := t'\<rparr> # gs'"
    by (auto split: sum.splits)
  show ?case
  proof (cases "f = g")
    case True
    with g fs' show ?thesis by simp
  next
    case False
    with Cons.prems(2) have "f \<in> set gs" by simp
    from Cons.IH [OF gs this] fs' show ?thesis by auto
  qed
qed

text \<open>
  The zone-less case works as the comment in \<^verbatim>\<open>_bytes2schema\<close> says: whenever the schema
  can be written, a field of zone-less nanosecond timestamp type is held in the footer
  with microsecond resolution and comes back as a field of the same name with zone-less
  nanosecond type.
\<close>

lemma zoneless_timestamp_kept:
  assumes "schema2bytes s = Inr data"
    and "f \<in> set (schema_fields s)" and "ftype f = PaTimestamp Unit_ns None"
  shows "f\<lparr>ftype := PaTimestamp Unit_us None\<rparr> \<in> set (schema_fields (pq_read_schema data))"
    and "\<lparr>name = name f, ftype = PaTimestamp Unit_ns None, nullable = True\<rparr>
           \<in> set (schema_fields (bytes2schema data))"
proof -
  from assms(1) obtain fs' where
    fs: "parquet_fields (schema_fields s) = Inr fs'"
    and data: "data = Footer (s\<lparr>schema_fields := fs'\<rparr>)"
    by (auto simp: schema2bytes_def pq_write_metadata_def split: sum.splits)
  from parquet_fields_member [OF fs assms(2)] assms(3)
  have m: "f\<lparr>ftype := PaTimestamp Unit_us None\<rparr> \<in> set fs'" by simp
  with data show "f\<lparr>ftype := PaTimestamp Unit_us None\<rparr> \<in> set (schema_fields (pq_read_schema data))"
    by simp
  have "bytes2schema_field (f\<lparr>ftype := PaTimestamp Unit_us None\<rparr>)
       = \<lparr>name = name f, ftype = PaTimestamp Unit_ns None, nullable = True\<rparr>"
    by (simp add: bytes2schema_field_def)
  with m data show "\<lparr>name = name f, ftype = PaTimestamp Unit_ns None, nullable = True\<rparr>
           \<in> set (schema_fields (bytes2schema data))"
    by (force simp: bytes2schema_def Let_def)
qed

lemma bytes2schema_no_zoneless_us:
  "h \<in> set (schema_fields (bytes2schema data)) \<Longrightarrow> ftype h \<noteq> PaTimestamp Unit_us None"
  by (auto simp: bytes2schema_def Let_def bytes2schema_field_def)

text \<open>
  The writer on types outside the claim: a schema with a \<^verbatim>\<open>halffloat\<close> column cannot be
  serialised, and a timestamp inside a list is stored with microsecond resolution and
  is not a field of type \<^verbatim>\<open>pa.timestamp("us")\<close> for the loop of \<^verbatim>\<open>_bytes2schema\<close>.
\<close>

lemma schema2bytes_examples:
  "schema2bytes \<lparr>schema_fields = [example_field ''h'' PaFloat16], metadata = None\<rparr>
     = Inl ArrowNotImplementedError"
  "schema_roundtrip
     \<lparr>schema_fields = [example_field ''ts'' (PaList (PaTimestamp Unit_ns None))], metadata = None\<rparr>
     = Inr \<lparr>schema_fields = [example_field ''ts'' (PaList (PaTimestamp Unit_us None))],
            metadata = None\<rparr>"
  by code_simp+

text \<open>
  Claim C6 fails in the code for a timestamp with a time zone. The schema \<^verbatim>\<open>example_T\<close>
  has the column \<^verbatim>\<open>t_utc\<close> of type \<^verbatim>\<open>timestamp[ns, tz=UTC]\<close> and the column \<^verbatim>\<open>t\<close> of type
  \<^verbatim>\<open>timestamp[ns]\<close>. The footer holds both with microsecond resolution. The test
  \<^verbatim>\<open>f.type == pa.timestamp("us")\<close> of \<^verbatim>\<open>_bytes2schema\<close> holds for the zone-less type only,
  so \<^verbatim>\<open>t\<close> comes back with nanosecond resolution and \<^verbatim>\<open>t_utc\<close> comes back with
  microsecond resolution: no field named \<^verbatim>\<open>t_utc\<close> of the returned schema has nanosecond
  resolution. The comment above the test says that the schema recovered from Parquet
  always has its timestamps at microsecond resolution and that the loop re-aligns them.
\<close>

theorem roundtrip_zoned_timestamp:
  "example_field ''t_utc'' (PaTimestamp Unit_ns (Some ''UTC'')) \<in> set (schema_fields example_T)
   \<and> timestamp_unit (PaTimestamp Unit_ns (Some ''UTC'')) = Some Unit_ns
   \<and> schema2bytes example_T =
       Inr (Footer \<lparr>schema_fields =
                      [example_field ''t_utc'' (PaTimestamp Unit_us (Some ''UTC'')),
                       example_field ''t'' (PaTimestamp Unit_us None)],
                    metadata = None\<rparr>)
   \<and> schema_roundtrip example_T =
       Inr \<lparr>schema_fields =
              [example_field ''t_utc'' (PaTimestamp Unit_us (Some ''UTC'')),
               example_field ''t'' (PaTimestamp Unit_ns None)],
            metadata = None\<rparr>
   \<and> \<not> (\<exists>f \<in> set (schema_fields
                     (bytes2schema (Footer \<lparr>schema_fields =
                        [example_field ''t_utc'' (PaTimestamp Unit_us (Some ''UTC'')),
                         example_field ''t'' (PaTimestamp Unit_us None)],
                        metadata = None\<rparr>))).
           name f = ''t_utc'' \<and> timestamp_unit (ftype f) = Some Unit_ns)"
  by code_simp

section \<open>Input order and the outcome of \<^verbatim>\<open>validate_compatible\<close>\<close>

lemma distinct_count_list_one:
  "distinct xs \<Longrightarrow> x \<in> set xs \<Longrightarrow> count_list xs x = 1"
  by (induction xs) (auto simp: count_list_0_iff)

lemma has_columns_length:
  "has_columns c ns w \<Longrightarrow> length (schema_fields (internal w)) = length ns"
  by (auto simp: has_columns_def schema_names_def)

lemma has_columns_name:
  "has_columns c ns w \<Longrightarrow> i < length ns \<Longrightarrow> name (schema_fields (internal w) ! i) = ns ! i"
  by (metis has_columns_def has_columns_length nth_map schema_names_def)

lemma has_columns_index:
  assumes w: "has_columns c ns w" and d: "distinct ns" and i: "i < length ns"
  shows "get_field_index (internal w) (ns ! i) = int i"
proof -
  let ?s = "internal w"
  from w have nm: "schema_names ?s = ns" by (simp add: has_columns_def)
  with d i have "count_list (schema_names ?s) (ns ! i) = 1"
    by (simp add: distinct_count_list_one)
  then have ge: "get_field_index ?s (ns ! i) \<ge> 0" by (simp add: get_field_index_count)
  from get_field_index_nonneg [OF ge] have
    lt: "nat (get_field_index ?s (ns ! i)) < length (schema_fields ?s)"
    and eq: "name (schema_fields ?s ! nat (get_field_index ?s (ns ! i))) = ns ! i" by auto
  from lt w have lt': "nat (get_field_index ?s (ns ! i)) < length ns"
    by (simp add: has_columns_length)
  with eq w have "ns ! nat (get_field_index ?s (ns ! i)) = ns ! i"
    by (simp add: has_columns_name)
  with d lt' i have "nat (get_field_index ?s (ns ! i)) = i"
    by (simp add: nth_eq_iff_index_eq)
  with ge show ?thesis by simp
qed

lemma filter_name_distinct:
  "distinct (map name fs) \<Longrightarrow> i < length fs \<Longrightarrow>
     filter (\<lambda>f. name f = name (fs ! i)) fs = [fs ! i]"
proof (induction fs arbitrary: i)
  case Nil
  then show ?case by simp
next
  case (Cons f fs)
  show ?case
  proof (cases i)
    case 0
    from Cons.prems(1) have "name f \<notin> name ` set fs" by simp
    then have "\<forall>g \<in> set fs. name g \<noteq> name f" by (metis imageI)
    then have "filter (\<lambda>g. name g = name f) fs = []" by (simp add: filter_empty_conv)
    with 0 show ?thesis by simp
  next
    case (Suc j)
    with Cons.prems have j: "j < length fs" and d: "distinct (map name fs)" by auto
    from j have "name (fs ! j) \<in> name ` set fs" by simp
    with Cons.prems(1) have "name f \<noteq> name (fs ! j)" by auto
    with Suc Cons.IH [OF d j] show ?thesis by simp
  qed
qed

lemma has_columns_field_by_name:
  assumes w: "has_columns c ns w" and d: "distinct ns" and i: "i < length ns"
  shows "field_by_name (internal w) (ns ! i) = Some (schema_fields (internal w) ! i)"
proof -
  from w d have "distinct (map name (schema_fields (internal w)))"
    by (simp add: has_columns_def schema_names_def)
  moreover from w i have "i < length (schema_fields (internal w))"
    by (simp add: has_columns_length)
  ultimately have "filter (\<lambda>f. name f = name (schema_fields (internal w) ! i))
      (schema_fields (internal w)) = [schema_fields (internal w) ! i]"
    by (rule filter_name_distinct)
  with w i show ?thesis by (simp add: field_by_name_def has_columns_name)
qed

lemma has_columns_null_names:
  assumes w: "has_columns c ns w"
  shows "null_names (schema_fields (internal w))
         = {ns ! i | i. i < length ns \<and> ftype (schema_fields (internal w) ! i) = PaNull}"
proof -
  let ?fs = "schema_fields (internal w)"
  have len: "length ?fs = length ns" using w by (rule has_columns_length)
  show ?thesis
  proof (intro set_eqI iffI)
    fix x assume "x \<in> null_names ?fs"
    then obtain f where f: "f \<in> set ?fs" "ftype f = PaNull" "name f = x"
      by (auto simp: null_names_def)
    from f(1) obtain i where i: "i < length ?fs" "f = ?fs ! i" by (auto simp: in_set_conv_nth)
    with f len has_columns_name [OF w, of i]
    show "x \<in> {ns ! i | i. i < length ns \<and> ftype (?fs ! i) = PaNull}" by auto
  next
    fix x assume "x \<in> {ns ! i | i. i < length ns \<and> ftype (?fs ! i) = PaNull}"
    then obtain i where i: "i < length ns" "ftype (?fs ! i) = PaNull" "x = ns ! i" by auto
    with len have "?fs ! i \<in> set ?fs" by simp
    moreover from i has_columns_name [OF w i(1)] have "x = name (?fs ! i)" by simp
    ultimately have "\<exists>f. x = name f \<and> f \<in> set ?fs \<and> ftype f = PaNull"
      using i(2) by (intro exI [of _ "?fs ! i"]) simp
    then show "x \<in> null_names ?fs" by (simp add: null_names_def)
  qed
qed

lemma prepare_current_columns:
  assumes w: "has_columns c ns schema" and hp: "hp \<longrightarrow> has_pandas_key schema"
  shows "\<exists>current. prepare_current c hp schema = Inr current \<and> has_columns c ns current
           \<and> origin current = origin schema
           \<and> schema_fields (internal current) = schema_fields (internal schema)"
proof (cases hp)
  case False
  with w show ?thesis by (simp add: prepare_current_def)
next
  case True
  with hp obtain md pm where md: "metadata (internal schema) = Some md"
    and pm: "pandas md = Some pm"
    by (auto simp: has_pandas_key_def split: option.splits)
  let ?s = "\<lparr>schema_fields = schema_fields (internal schema),
             metadata = Some (md\<lparr>pandas := Some (pm\<lparr>pandas_version := pd_version c\<rparr>)\<rparr>)\<rparr>"
  from w have st: "schema_settled c (internal schema)"
    by (simp add: has_columns_def is_wrapper_settled)
  have nm: "schema_names ?s = schema_names (internal schema)"
    by (simp add: schema_names_def)
  have "\<And>x. index_col_settled c ?s x = index_col_settled c (internal schema) x"
    using nm by (rule index_col_settled_names_cong)
  with st md pm have st': "schema_settled c ?s"
    by (simp add: schema_settled_def)
  from SchemaWrapper_init_settled [OF st', of "origin schema"] True md pm
  have "prepare_current c hp schema = Inr \<lparr>internal = ?s, origin = origin schema\<rparr>"
    by (simp add: prepare_current_def)
  moreover from st' nm w have "has_columns c ns \<lparr>internal = ?s, origin = origin schema\<rparr>"
    by (simp add: has_columns_def is_wrapper_settled)
  ultimately show ?thesis by simp
qed

lemma swap_fields_by_name_columns:
  assumes r: "has_columns c ns ref" and cu: "has_columns c ns cur"
    and d: "distinct ns" and i: "i < length ns"
  shows "swap_fields_by_name c ref cur (ns ! i) =
           Inr (ref\<lparr>internal := (internal ref)\<lparr>schema_fields :=
                  (schema_fields (internal ref))[i := schema_fields (internal cur) ! i]\<rparr>\<rparr>)"
    (is "_ = Inr ?ref'")
    and "has_columns c ns (ref\<lparr>internal := (internal ref)\<lparr>schema_fields :=
                  (schema_fields (internal ref))[i := schema_fields (internal cur) ! i]\<rparr>\<rparr>)"
proof -
  let ?f = "schema_fields (internal cur) ! i"
  let ?s = "(internal ref)\<lparr>schema_fields := (schema_fields (internal ref))[i := ?f]\<rparr>"
  from r have len: "length (schema_fields (internal ref)) = length ns"
    by (rule has_columns_length)
  have "map name ((schema_fields (internal ref))[i := ?f])
      = (map name (schema_fields (internal ref)))[i := name ?f]"
    by (simp add: map_update)
  also have "\<dots> = ns [i := ns ! i]"
  proof -
    from r have "map name (schema_fields (internal ref)) = ns"
      by (simp add: has_columns_def schema_names_def)
    moreover from has_columns_name [OF cu i] have "name ?f = ns ! i" .
    ultimately show ?thesis by simp
  qed
  finally have nm: "schema_names ?s = ns" by (simp add: schema_names_def)
  with r have nm': "schema_names ?s = schema_names (internal ref)"
    by (simp add: has_columns_def)
  from r have "schema_settled c (internal ref)"
    by (simp add: has_columns_def is_wrapper_settled)
  with schema_settled_cong [OF nm', of c] have st: "schema_settled c ?s" by simp
  have "\<lparr>internal = ?s, origin = origin ref\<rparr> = ?ref'" by (cases ref) simp
  with SchemaWrapper_init_settled [OF st, of "origin ref"] i len
    has_columns_field_by_name [OF cu d i] has_columns_index [OF r d i]
  show "swap_fields_by_name c ref cur (ns ! i) = Inr ?ref'"
    by (simp add: swap_fields_by_name_def wrapper_set_def schema_set_def)
  from st nm show "has_columns c ns ?ref'"
    by (simp add: has_columns_def is_wrapper_settled)
qed

lemma heal_columns:
  assumes d: "distinct ns" and cu: "has_columns c ns cur"
  shows "has_columns c ns ref \<Longrightarrow> set cols \<subseteq> set ns \<Longrightarrow>
     \<exists>ref'. heal c ref cur R cols = Inr (ref', filter (\<lambda>x. x \<notin> set cols) R)
       \<and> has_columns c ns ref' \<and> origin ref' = origin ref
       \<and> (\<forall>j < length ns. schema_fields (internal ref') ! j =
             (if ns ! j \<in> set cols then schema_fields (internal cur) ! j
              else schema_fields (internal ref) ! j))"
proof (induction cols arbitrary: ref R)
  case Nil
  then show ?case by simp
next
  case (Cons col cols)
  from Cons.prems(2) obtain i where i: "i < length ns" "col = ns ! i"
    by (auto simp: in_set_conv_nth)
  let ?ref1 = "ref\<lparr>internal := (internal ref)\<lparr>schema_fields :=
                  (schema_fields (internal ref))[i := schema_fields (internal cur) ! i]\<rparr>\<rparr>"
  from swap_fields_by_name_columns [OF Cons.prems(1) cu d i(1)] i(2) have
    sw: "swap_fields_by_name c ref cur col = Inr ?ref1" and r1: "has_columns c ns ?ref1"
    by auto
  from Cons.prems(2) have sub: "set cols \<subseteq> set ns" by simp
  from Cons.IH [OF r1 sub, of "removeAll col R"] obtain ref' where
    h: "heal c ?ref1 cur (removeAll col R) cols
          = Inr (ref', filter (\<lambda>x. x \<notin> set cols) (removeAll col R))"
    and r': "has_columns c ns ref'" and o': "origin ref' = origin ?ref1"
    and f': "\<forall>j < length ns. schema_fields (internal ref') ! j =
             (if ns ! j \<in> set cols then schema_fields (internal cur) ! j
              else schema_fields (internal ?ref1) ! j)"
    by blast
  have R': "filter (\<lambda>x. x \<notin> set cols) (removeAll col R)
      = filter (\<lambda>x. x \<notin> set (col # cols)) R"
    by (induction R) auto
  have len: "length (schema_fields (internal ref)) = length ns"
    using Cons.prems(1) by (rule has_columns_length)
  have "\<forall>j < length ns. schema_fields (internal ref') ! j =
             (if ns ! j \<in> set (col # cols) then schema_fields (internal cur) ! j
              else schema_fields (internal ref) ! j)"
  proof (intro allI impI)
    fix j assume j: "j < length ns"
    from d i j have eq: "(ns ! j = col) = (j = i)" by (auto simp: nth_eq_iff_index_eq)
    from f' j have "schema_fields (internal ref') ! j =
             (if ns ! j \<in> set cols then schema_fields (internal cur) ! j
              else schema_fields (internal ?ref1) ! j)" by simp
    with eq j len show "schema_fields (internal ref') ! j =
             (if ns ! j \<in> set (col # cols) then schema_fields (internal cur) ! j
              else schema_fields (internal ref) ! j)"
      by (auto simp: nth_list_update)
  qed
  with sw h R' r' o' show ?case by simp
qed

lemma has_columns_null_at:
  assumes w: "has_columns c ns w" and d: "distinct ns" and j: "j < length ns"
  shows "(ns ! j \<in> null_names (schema_fields (internal w)))
         = (ftype (schema_fields (internal w) ! j) = PaNull)"
proof -
  have "(ns ! j \<in> {ns ! i | i. i < length ns \<and> ftype (schema_fields (internal w) ! i) = PaNull})
      = (ftype (schema_fields (internal w) ! j) = PaNull)"
    using d j by (auto simp: nth_eq_iff_index_eq)
  then show ?thesis by (simp add: has_columns_null_names [OF w])
qed

lemma has_columns_typed_fields:
  assumes w: "has_columns c ns w"
  shows "typed_fields w = {schema_fields (internal w) ! j | j.
           j < length ns \<and> ftype (schema_fields (internal w) ! j) \<noteq> PaNull}"
  using has_columns_length [OF w]
  by (auto simp: typed_fields_def in_set_conv_nth)

lemma typed_fieldsI:
  "has_columns c ns w \<Longrightarrow> j < length ns \<Longrightarrow> f = schema_fields (internal w) ! j \<Longrightarrow>
     ftype f \<noteq> PaNull \<Longrightarrow> f \<in> typed_fields w"
  using has_columns_length [of c ns w]
  by (simp add: typed_fields_def)

lemma null_names_subset_names:
  "has_columns c ns w \<Longrightarrow> null_names (schema_fields (internal w)) \<subseteq> set ns"
  by (auto simp: has_columns_null_names)

lemma heal_sound:
  assumes d: "distinct ns" and a: "has_columns c ns a" and b: "has_columns c ns b"
    and Ra: "set Ra = null_names (schema_fields (internal a))" "distinct Ra"
    and Nb: "set Nb = null_names (schema_fields (internal b))"
  shows "\<exists>a' Ra'. heal c a b Ra (set_difference Ra Nb) = Inr (a', Ra')
           \<and> has_columns c ns a' \<and> origin a' = origin a \<and> distinct Ra'
           \<and> set Ra' = null_names (schema_fields (internal a'))
           \<and> set Ra' = set Ra \<inter> set Nb
           \<and> typed_fields a' \<union> typed_fields b = typed_fields a \<union> typed_fields b"
proof -
  let ?cols = "set_difference Ra Nb"
  let ?fa = "schema_fields (internal a)"
  let ?fb = "schema_fields (internal b)"
  have cols: "set ?cols = set Ra - set Nb" by (auto simp: set_difference_def)
  with Ra(1) null_names_subset_names [OF a] have sub: "set ?cols \<subseteq> set ns" by auto
  from heal_columns [OF d b a sub, of Ra] obtain a' where
    h: "heal c a b Ra ?cols = Inr (a', filter (\<lambda>x. x \<notin> set ?cols) Ra)"
    and a': "has_columns c ns a'" and o': "origin a' = origin a"
    and f': "\<forall>j < length ns. schema_fields (internal a') ! j =
             (if ns ! j \<in> set ?cols then ?fb ! j else ?fa ! j)"
    by blast
  let ?fa' = "schema_fields (internal a')"
  let ?Ra' = "filter (\<lambda>x. x \<notin> set ?cols) Ra"
  have setRa': "set ?Ra' = set Ra \<inter> set Nb" using cols by auto
  have at: "(ftype (?fa' ! j) = PaNull) = (ns ! j \<in> set Ra \<inter> set Nb)" if j: "j < length ns" for j
  proof (cases "ns ! j \<in> set ?cols")
    case True
    with cols have "ns ! j \<notin> set Nb" by simp
    with Nb has_columns_null_at [OF b d j] have "ftype (?fb ! j) \<noteq> PaNull" by simp
    with True f' j cols show ?thesis by auto
  next
    case False
    with f' j have "?fa' ! j = ?fa ! j" by simp
    with Ra(1) has_columns_null_at [OF a d j] False cols show ?thesis by auto
  qed
  have nulls: "set ?Ra' = null_names ?fa'"
    unfolding setRa' has_columns_null_names [OF a']
  proof (intro set_eqI iffI)
    fix x assume x: "x \<in> set Ra \<inter> set Nb"
    with Ra(1) null_names_subset_names [OF a] have "x \<in> set ns" by auto
    then obtain j where j: "j < length ns" "x = ns ! j"
      by (auto simp: in_set_conv_nth)
    with at [OF j(1)] x show "x \<in> {ns ! i | i. i < length ns \<and> ftype (?fa' ! i) = PaNull}"
      by auto
  next
    fix x assume "x \<in> {ns ! i | i. i < length ns \<and> ftype (?fa' ! i) = PaNull}"
    then obtain j where j: "j < length ns" "x = ns ! j" "ftype (?fa' ! j) = PaNull" by auto
    with at [OF j(1)] show "x \<in> set Ra \<inter> set Nb" by simp
  qed
  have typed: "typed_fields a' \<union> typed_fields b = typed_fields a \<union> typed_fields b"
  proof (intro set_eqI iffI)
    fix f assume "f \<in> typed_fields a' \<union> typed_fields b"
    then show "f \<in> typed_fields a \<union> typed_fields b"
    proof
      assume "f \<in> typed_fields a'"
      then obtain j where j: "j < length ns" "f = ?fa' ! j" "ftype f \<noteq> PaNull"
        by (auto simp: has_columns_typed_fields [OF a'])
      show ?thesis
      proof (cases "ns ! j \<in> set ?cols")
        case True
        with f' j have "f = ?fb ! j" by simp
        from typed_fieldsI [OF b j(1) this j(3)] show ?thesis by simp
      next
        case False
        with f' j have "f = ?fa ! j" by simp
        from typed_fieldsI [OF a j(1) this j(3)] show ?thesis by simp
      qed
    qed simp
  next
    fix f assume "f \<in> typed_fields a \<union> typed_fields b"
    then show "f \<in> typed_fields a' \<union> typed_fields b"
    proof
      assume "f \<in> typed_fields a"
      then obtain j where j: "j < length ns" "f = ?fa ! j" "ftype f \<noteq> PaNull"
        by (auto simp: has_columns_typed_fields [OF a])
      with Ra(1) has_columns_null_at [OF a d j(1)] have "ns ! j \<notin> set Ra" by simp
      with cols have "ns ! j \<notin> set ?cols" by simp
      with f' j have "f = ?fa' ! j" by simp
      from typed_fieldsI [OF a' j(1) this j(3)] show ?thesis by simp
    qed simp
  qed
  from Ra(2) have "distinct ?Ra'" by simp
  with h a' o' nulls setRa' typed show ?thesis by blast
qed

lemma null_columns_of_set:
  "distinct (null_columns_of w)"
  "set (null_columns_of w) = null_names (schema_fields (internal w))"
  by (auto simp: null_columns_of_def null_names_def)

lemma resolver_soundI:
  assumes "has_columns c ns ref" and "distinct R"
    and "set R = null_names (schema_fields (internal ref))"
    and "\<And>P N. (P, N) \<in> set pending \<Longrightarrow>
           has_columns c ns P \<and> distinct N
           \<and> set N = null_names (schema_fields (internal P)) \<and> set R \<subseteq> set N"
    and "typed_fields ref \<union> (\<Union>p \<in> set pending. typed_fields (fst p)) = F"
  shows "resolver_sound c ns F
           \<lparr>reference = Some ref, null_cols_in_reference = R, schemas_to_evaluate = pending\<rparr>"
proof -
  have "\<forall>p \<in> set pending. has_columns c ns (fst p) \<and> distinct (snd p)
      \<and> set (snd p) = null_names (schema_fields (internal (fst p))) \<and> set R \<subseteq> set (snd p)"
  proof
    fix p assume "p \<in> set pending"
    then have "(fst p, snd p) \<in> set pending" by simp
    from assms(4) [OF this] show "has_columns c ns (fst p) \<and> distinct (snd p)
      \<and> set (snd p) = null_names (schema_fields (internal (fst p))) \<and> set R \<subseteq> set (snd p)" .
  qed
  with assms(1,2,3,5) show ?thesis
    unfolding resolver_sound_def resolver_state.select_convs option.case by blast
qed

lemma resolver_step_sound:
  assumes d: "distinct ns" and inv: "resolver_sound c ns F st"
    and w: "has_columns c ns schema" and hp: "hp \<longrightarrow> has_pandas_key schema"
  shows "\<exists>st'. resolver_step c hp st schema = Inr st'
           \<and> resolver_sound c ns (F \<union> typed_fields schema) st'"
proof -
  from prepare_current_columns [OF w hp] obtain current where
    prep: "prepare_current c hp schema = Inr current"
    and cur: "has_columns c ns current"
    and fs: "schema_fields (internal current) = schema_fields (internal schema)"
    by blast
  from fs have ty: "typed_fields current = typed_fields schema"
    by (simp add: typed_fields_def)
  let ?N = "null_columns_of current"
  let ?R = "null_cols_in_reference st"
  let ?old = "schemas_to_evaluate st"
  note N = null_columns_of_set [of current]
  show ?thesis
  proof (cases "reference st")
    case None
    with prep have "resolver_step c hp st schema
        = Inr (st\<lparr>reference := Some current, null_cols_in_reference := ?N\<rparr>)"
      by (simp add: resolver_step_def Let_def)
    moreover from inv None cur N ty have "resolver_sound c ns (F \<union> typed_fields schema)
        (st\<lparr>reference := Some current, null_cols_in_reference := ?N\<rparr>)"
      by (simp add: resolver_sound_def)
    ultimately show ?thesis by blast
  next
    case (Some ref)
    from inv have ref: "has_columns c ns ref" and dR: "distinct ?R"
      and R: "set ?R = null_names (schema_fields (internal ref))"
      and pend0: "\<forall>p \<in> set ?old.
                has_columns c ns (fst p) \<and> distinct (snd p)
                \<and> set (snd p) = null_names (schema_fields (internal (fst p)))
                \<and> set ?R \<subseteq> set (snd p)"
      and F: "typed_fields ref \<union> (\<Union>p \<in> set ?old. typed_fields (fst p)) = F"
      unfolding resolver_sound_def Some option.case by blast+
    have pend: "has_columns c ns P \<and> distinct N
           \<and> set N = null_names (schema_fields (internal P)) \<and> set ?R \<subseteq> set N"
      if "(P, N) \<in> set ?old" for P N
      using pend0 that by fastforce
    have st_eq: "st = \<lparr>reference = Some ref, null_cols_in_reference = ?R,
        schemas_to_evaluate = ?old\<rparr>"
      using Some by (cases st) simp
    consider (a) "issubset ?R ?N"
      | (b) "\<not> issubset ?R ?N" "issubset ?N ?R"
      | (c) "\<not> issubset ?R ?N" "\<not> issubset ?N ?R" "length ?N < length ?R"
      | (d) "\<not> issubset ?R ?N" "\<not> issubset ?N ?R" "\<not> length ?N < length ?R"
      by blast
    then show ?thesis
    proof cases
      case a
      let ?st' = "\<lparr>reference = Some ref, null_cols_in_reference = ?R,
                schemas_to_evaluate = ?old @ [(current, ?N)]\<rparr>"
      from a prep Some have "resolver_step c hp st schema
          = Inr (st\<lparr>schemas_to_evaluate := ?old @ [(current, ?N)]\<rparr>)"
        by (simp add: resolver_step_def Let_def)
      moreover have "st\<lparr>schemas_to_evaluate := ?old @ [(current, ?N)]\<rparr> = ?st'"
        using Some by (cases st) simp
      moreover have "resolver_sound c ns (F \<union> typed_fields schema) ?st'"
      proof (rule resolver_soundI [OF ref dR R])
        fix P N assume "(P, N) \<in> set (?old @ [(current, ?N)])"
        then consider "(P, N) \<in> set ?old" | "P = current" "N = ?N" by auto
        then show "has_columns c ns P \<and> distinct N
           \<and> set N = null_names (schema_fields (internal P)) \<and> set ?R \<subseteq> set N"
        proof cases
          case 1
          then show ?thesis by (rule pend)
        next
          case 2
          with cur N a show ?thesis by (simp add: issubset_def)
        qed
      next
        show "typed_fields ref \<union> (\<Union>p \<in> set (?old @ [(current, ?N)]). typed_fields (fst p))
            = F \<union> typed_fields schema"
          using F ty by auto
      qed
      ultimately show ?thesis by simp
    next
      case b
      let ?st' = "\<lparr>reference = Some current, null_cols_in_reference = ?N,
                schemas_to_evaluate = ?old @ [(ref, ?R)]\<rparr>"
      from b prep Some have "resolver_step c hp st schema = Inr ?st'"
        by (simp add: resolver_step_def Let_def)
      moreover have "resolver_sound c ns (F \<union> typed_fields schema) ?st'"
      proof (rule resolver_soundI [OF cur N])
        fix P N assume "(P, N) \<in> set (?old @ [(ref, ?R)])"
        then consider "(P, N) \<in> set ?old" | "P = ref" "N = ?R" by auto
        then show "has_columns c ns P \<and> distinct N
           \<and> set N = null_names (schema_fields (internal P)) \<and> set ?N \<subseteq> set N"
        proof cases
          case 1
          from pend [OF 1] b(2) show ?thesis by (auto simp: issubset_def)
        next
          case 2
          with ref dR R b(2) show ?thesis by (simp add: issubset_def)
        qed
      next
        show "typed_fields current \<union> (\<Union>p \<in> set (?old @ [(ref, ?R)]). typed_fields (fst p))
            = F \<union> typed_fields schema"
          using F ty by auto
      qed
      ultimately show ?thesis by blast
    next
      case c
      from heal_sound [OF d cur ref N(2) N(1) R] obtain a' Ra' where
        h: "heal c current ref ?N (set_difference ?N ?R) = Inr (a', Ra')"
        and a': "has_columns c ns a'" "distinct Ra'"
          "set Ra' = null_names (schema_fields (internal a'))"
        and Ra': "set Ra' = set ?N \<inter> set ?R"
        and t: "typed_fields a' \<union> typed_fields ref = typed_fields current \<union> typed_fields ref"
        by blast
      let ?st' = "\<lparr>reference = Some a', null_cols_in_reference = Ra',
                schemas_to_evaluate = ?old @ [(ref, ?R)]\<rparr>"
      from c prep Some h have "resolver_step c hp st schema = Inr ?st'"
        by (simp add: resolver_step_def Let_def)
      moreover have "resolver_sound c ns (F \<union> typed_fields schema) ?st'"
      proof (rule resolver_soundI [OF a'])
        fix P N assume "(P, N) \<in> set (?old @ [(ref, ?R)])"
        then consider "(P, N) \<in> set ?old" | "P = ref" "N = ?R" by auto
        then show "has_columns c ns P \<and> distinct N
           \<and> set N = null_names (schema_fields (internal P)) \<and> set Ra' \<subseteq> set N"
        proof cases
          case 1
          from pend [OF 1] Ra' show ?thesis by auto
        next
          case 2
          with ref dR R Ra' show ?thesis by simp
        qed
      next
        show "typed_fields a' \<union> (\<Union>p \<in> set (?old @ [(ref, ?R)]). typed_fields (fst p))
            = F \<union> typed_fields schema"
          using t F ty by auto
      qed
      ultimately show ?thesis by blast
    next
      case d
      from heal_sound [OF \<open>distinct ns\<close> ref cur R dR N(2)] obtain a' Ra' where
        h: "heal c ref current ?R (set_difference ?R ?N) = Inr (a', Ra')"
        and a': "has_columns c ns a'" "distinct Ra'"
          "set Ra' = null_names (schema_fields (internal a'))"
        and Ra': "set Ra' = set ?R \<inter> set ?N"
        and t: "typed_fields a' \<union> typed_fields current = typed_fields ref \<union> typed_fields current"
        by blast
      let ?st' = "\<lparr>reference = Some a', null_cols_in_reference = Ra',
                schemas_to_evaluate = ?old @ [(current, ?N)]\<rparr>"
      from d prep Some h have "resolver_step c hp st schema = Inr ?st'"
        by (simp add: resolver_step_def Let_def)
      moreover have "resolver_sound c ns (F \<union> typed_fields schema) ?st'"
      proof (rule resolver_soundI [OF a'])
        fix P N assume "(P, N) \<in> set (?old @ [(current, ?N)])"
        then consider "(P, N) \<in> set ?old" | "P = current" "N = ?N" by auto
        then show "has_columns c ns P \<and> distinct N
           \<and> set N = null_names (schema_fields (internal P)) \<and> set Ra' \<subseteq> set N"
        proof cases
          case 1
          from pend [OF 1] Ra' show ?thesis by auto
        next
          case 2
          with cur N Ra' show ?thesis by simp
        qed
      next
        show "typed_fields a' \<union> (\<Union>p \<in> set (?old @ [(current, ?N)]). typed_fields (fst p))
            = F \<union> typed_fields schema"
          using t F ty by auto
      qed
      ultimately show ?thesis by blast
    qed
  qed
qed

lemma resolver_loop_sound:
  assumes d: "distinct ns"
  shows "resolver_sound c ns F st \<Longrightarrow>
     \<forall>schema \<in> set schemas. has_columns c ns schema \<and> (hp \<longrightarrow> has_pandas_key schema) \<Longrightarrow>
     \<exists>st'. resolver_loop c hp st schemas = Inr st'
       \<and> resolver_sound c ns (F \<union> (\<Union>schema \<in> set schemas. typed_fields schema)) st'"
proof (induction schemas arbitrary: st F)
  case Nil
  then show ?case by simp
next
  case (Cons schema schemas)
  from Cons.prems(2) have w: "has_columns c ns schema" and hp: "hp \<longrightarrow> has_pandas_key schema"
    and rest: "\<forall>schema \<in> set schemas. has_columns c ns schema \<and> (hp \<longrightarrow> has_pandas_key schema)"
    by auto
  from resolver_step_sound [OF d Cons.prems(1) w hp] obtain st1 where
    s1: "resolver_step c hp st schema = Inr st1"
    and inv1: "resolver_sound c ns (F \<union> typed_fields schema) st1" by blast
  from Cons.IH [OF inv1 rest] obtain st' where
    "resolver_loop c hp st1 schemas = Inr st'"
    "resolver_sound c ns (F \<union> typed_fields schema
        \<union> (\<Union>schema \<in> set schemas. typed_fields schema)) st'" by blast
  with s1 show ?case by (auto simp: Un_assoc)
qed

lemma remove_nth_filter:
  "distinct (map name fs) \<Longrightarrow> i < length fs \<Longrightarrow>
     take i fs @ drop (Suc i) fs = filter (\<lambda>f. name f \<noteq> name (fs ! i)) fs"
proof (induction fs arbitrary: i)
  case Nil
  then show ?case by simp
next
  case (Cons f fs)
  show ?case
  proof (cases i)
    case 0
    from Cons.prems(1) have "name f \<notin> name ` set fs" by simp
    then have "\<forall>g \<in> set fs. name g \<noteq> name f" by (metis imageI)
    then have "filter (\<lambda>g. name g \<noteq> name f) fs = fs" by (simp add: filter_id_conv)
    with 0 show ?thesis by simp
  next
    case (Suc j)
    with Cons.prems have j: "j < length fs" and d: "distinct (map name fs)" by auto
    from j have "name (fs ! j) \<in> name ` set fs" by simp
    with Cons.prems(1) have "name f \<noteq> name (fs ! j)" by auto
    with Suc Cons.IH [OF d j] show ?thesis by simp
  qed
qed

lemma strip_loop_all:
  "is_wrapper c stripped \<Longrightarrow> distinct (schema_names (internal stripped)) \<Longrightarrow>
   distinct N \<Longrightarrow> set N \<subseteq> set (schema_names (internal stripped)) \<Longrightarrow>
   strip_loop c schema stripped N =
     Inr (\<lparr>internal = (internal stripped)\<lparr>schema_fields :=
             filter (\<lambda>f. name f \<notin> set N) (schema_fields (internal stripped))\<rparr>,
           origin = origin stripped\<rparr>, [])"
proof (induction N arbitrary: stripped)
  case Nil
  then show ?case by simp
next
  case (Cons n N)
  let ?s = "internal stripped"
  let ?fs = "schema_fields ?s"
  let ?ix = "get_field_index ?s n"
  from Cons.prems(2,4) have "count_list (schema_names ?s) n = 1"
    by (simp add: distinct_count_list_one)
  then have ge: "?ix \<ge> 0" by (simp add: get_field_index_count)
  from get_field_index_nonneg [OF ge] have il: "nat ?ix < length ?fs"
    and nm: "name (?fs ! nat ?ix) = n" by auto
  from Cons.prems(2) have dn: "distinct (map name ?fs)" by (simp add: schema_names_def)
  from remove_nth_filter [OF dn il] nm have
    rm: "take (nat ?ix) ?fs @ drop (Suc (nat ?ix)) ?fs = filter (\<lambda>f. name f \<noteq> n) ?fs"
    by simp
  let ?s' = "\<lparr>internal = ?s\<lparr>schema_fields := filter (\<lambda>f. name f \<noteq> n) ?fs\<rparr>,
              origin = origin stripped\<rparr>"
  from wrapper_remove_found [OF Cons.prems(1) ge] rm have
    wr: "wrapper_remove c stripped ?ix = Inr ?s'" by simp
  from Cons.prems(1) have "schema_settled c ?s" by (simp add: is_wrapper_settled)
  from remove_keeps_settled [OF this ge] rm have w': "is_wrapper c ?s'"
    by (simp add: is_wrapper_settled)
  have names': "schema_names (internal ?s') = filter (\<lambda>x. x \<noteq> n) (schema_names ?s)"
    by (simp add: schema_names_def filter_map comp_def)
  with Cons.prems(2) have d': "distinct (schema_names (internal ?s'))" by simp
  from Cons.prems(3,4) names' have sub': "set N \<subseteq> set (schema_names (internal ?s'))"
    by auto
  from Cons.prems(3) have dN: "distinct N" by simp
  have "filter (\<lambda>f. name f \<notin> set N) (filter (\<lambda>f. name f \<noteq> n) ?fs)
      = filter (\<lambda>f. name f \<notin> set (n # N)) ?fs"
    by (simp add: conj_commute)
  with Cons.IH [OF w' d' dN sub'] ge wr show ?case
    by (simp add: Let_def)
qed

lemma to_compare_columns:
  assumes w: "has_columns c ns w" and d: "distinct ns" and N: "distinct N" "set N \<subseteq> set ns"
  shows "\<exists>r. to_compare c w N = Inr r
           \<and> schema_fields (internal r)
               = filter (\<lambda>f. name f \<notin> set N) (schema_fields (internal w))"
proof -
  from w d N have "strip_columns_from_schema c w N =
     Inr (\<lparr>internal = (internal w)\<lparr>schema_fields :=
             filter (\<lambda>f. name f \<notin> set N) (schema_fields (internal w))\<rparr>,
           origin = origin w\<rparr>, [])"
    unfolding strip_columns_from_schema_def
    by (intro strip_loop_all) (simp_all add: has_columns_def)
  then show ?thesis
    by (simp add: to_compare_def remove_metadata_def SchemaWrapper_init_def schema_compat_def)
qed

lemma filter_names_eq:
  "map name xs = map name ys \<Longrightarrow>
     (filter (\<lambda>f. name f \<notin> A) xs = filter (\<lambda>f. name f \<notin> A) ys)
       = (\<forall>i < length xs. name (xs ! i) \<notin> A \<longrightarrow> xs ! i = ys ! i)"
proof (induction xs arbitrary: ys)
  case Nil
  then show ?case by simp
next
  case (Cons x xs)
  from Cons.prems obtain y ys' where ys: "ys = y # ys'" "name x = name y"
    "map name xs = map name ys'" by (cases ys) auto
  from Cons.IH [OF ys(3)] ys(1,2) show ?case
    by (auto simp: less_Suc_eq_0_disj)
qed

lemma compare_to_reference_columns:
  assumes d: "distinct ns" and r: "has_columns c ns ref" and p: "has_columns c ns P"
    and N: "distinct N" "set N \<subseteq> set ns"
  shows "compare_to_reference c ref (P, N) =
           (if \<forall>i < length ns. ns ! i \<notin> set N \<longrightarrow>
                 schema_fields (internal ref) ! i = schema_fields (internal P) ! i
            then Inr ()
            else (case diff_schemas c ref P of
                    Inl e \<Rightarrow> Inl e
                  | Inr schema_diff \<Rightarrow> Inl (SchemaViolation (origin P) (origin ref))))"
proof -
  from to_compare_columns [OF r d N] obtain rr where
    rr: "to_compare c ref N = Inr rr" "schema_fields (internal rr)
               = filter (\<lambda>f. name f \<notin> set N) (schema_fields (internal ref))" by blast
  from to_compare_columns [OF p d N] obtain pp where
    pp: "to_compare c P N = Inr pp" "schema_fields (internal pp)
               = filter (\<lambda>f. name f \<notin> set N) (schema_fields (internal P))" by blast
  from r p have nm: "map name (schema_fields (internal ref)) = map name (schema_fields (internal P))"
    by (simp add: has_columns_def schema_names_def)
  have "wrapper_equals rr pp =
      (\<forall>i < length ns. ns ! i \<notin> set N \<longrightarrow>
          schema_fields (internal ref) ! i = schema_fields (internal P) ! i)"
    using filter_names_eq [OF nm, of "set N"] has_columns_length [OF r] has_columns_name [OF r]
    by (auto simp: wrapper_equals_def schema_equals_def rr(2) pp(2))
  with rr(1) pp(1) show ?thesis
    by (auto simp: compare_to_reference_def)
qed

lemma compare_all_columns:
  assumes d: "distinct ns" and r: "has_columns c ns ref"
  shows "(\<And>P N. (P, N) \<in> set pending \<Longrightarrow>
            has_columns c ns P \<and> distinct N \<and> set N \<subseteq> set ns) \<Longrightarrow>
     (compare_all c ref pending = Inr ()) =
          (\<forall>(P, N) \<in> set pending. \<forall>i < length ns. ns ! i \<notin> set N \<longrightarrow>
              schema_fields (internal ref) ! i = schema_fields (internal P) ! i)"
proof (induction pending)
  case Nil
  then show ?case by simp
next
  case (Cons p pending)
  obtain P N where p: "p = (P, N)" by (cases p)
  from Cons.prems [of P N] p have P: "has_columns c ns P" "distinct N" "set N \<subseteq> set ns"
    by auto
  note cmp = compare_to_reference_columns [OF d r P]
  have "has_columns c ns P' \<and> distinct N' \<and> set N' \<subseteq> set ns"
    if "(P', N') \<in> set pending" for P' N'
    using Cons.prems [of P' N'] that by simp
  from Cons.IH [OF this] p cmp show ?case
    by (auto split: if_splits sum.splits)
qed

lemma pass_iff_conflict_free:
  assumes d: "distinct ns" and st: "resolver_sound c ns F st"
    and ref: "reference st = Some ref"
  shows "(\<forall>(P, N) \<in> set (schemas_to_evaluate st). \<forall>i < length ns. ns ! i \<notin> set N \<longrightarrow>
              schema_fields (internal ref) ! i = schema_fields (internal P) ! i)
         = conflict_free F"
proof -
  let ?R = "null_cols_in_reference st"
  let ?pending = "schemas_to_evaluate st"
  let ?fr = "schema_fields (internal ref)"
  from st have r: "has_columns c ns ref"
    and R: "set ?R = null_names ?fr"
    and pend0: "\<forall>p \<in> set ?pending.
                has_columns c ns (fst p) \<and> distinct (snd p)
                \<and> set (snd p) = null_names (schema_fields (internal (fst p)))
                \<and> set ?R \<subseteq> set (snd p)"
    and F: "typed_fields ref \<union> (\<Union>p \<in> set ?pending. typed_fields (fst p)) = F"
    unfolding resolver_sound_def ref option.case by blast+
  have pend: "has_columns c ns P \<and> set N = null_names (schema_fields (internal P))
      \<and> set ?R \<subseteq> set N" if "(P, N) \<in> set ?pending" for P N
    using pend0 that by fastforce
  show ?thesis
  proof
    assume pass: "\<forall>(P, N) \<in> set ?pending. \<forall>i < length ns. ns ! i \<notin> set N \<longrightarrow>
              ?fr ! i = schema_fields (internal P) ! i"
    have at_ref: "\<exists>j < length ns. h = ?fr ! j \<and> name h = ns ! j" if h: "h \<in> F" for h
    proof -
      from h F consider "h \<in> typed_fields ref"
        | P N where "(P, N) \<in> set ?pending" "h \<in> typed_fields P" by fastforce
      then show ?thesis
      proof cases
        case 1
        then obtain j where j: "j < length ns" "h = ?fr ! j"
          by (auto simp: has_columns_typed_fields [OF r])
        with has_columns_name [OF r j(1)] show ?thesis by auto
      next
        case 2
        from pend [OF 2(1)] have P: "has_columns c ns P"
          and N: "set N = null_names (schema_fields (internal P))" by auto
        from 2(2) obtain j where j: "j < length ns" "h = schema_fields (internal P) ! j"
          "ftype h \<noteq> PaNull"
          by (auto simp: has_columns_typed_fields [OF P])
        with N has_columns_null_at [OF P d j(1)] have "ns ! j \<notin> set N" by simp
        with pass 2(1) j(1) have "?fr ! j = schema_fields (internal P) ! j" by fastforce
        with j has_columns_name [OF P j(1)] show ?thesis by auto
      qed
    qed
    show "conflict_free F"
      unfolding conflict_free_def
    proof (intro ballI impI)
      fix f g assume f: "f \<in> F" and g: "g \<in> F" and eq: "name f = name g"
      from at_ref [OF f] obtain j where j: "j < length ns" "f = ?fr ! j" "name f = ns ! j"
        by blast
      from at_ref [OF g] obtain k where k: "k < length ns" "g = ?fr ! k" "name g = ns ! k"
        by blast
      from eq j k d have "j = k" by (simp add: nth_eq_iff_index_eq)
      with j k show "f = g" by simp
    qed
  next
    assume cf: "conflict_free F"
    show "\<forall>(P, N) \<in> set ?pending. \<forall>i < length ns. ns ! i \<notin> set N \<longrightarrow>
              ?fr ! i = schema_fields (internal P) ! i"
    proof (intro ballI, clarify)
      fix P N i assume PN: "(P, N) \<in> set ?pending" and i: "i < length ns"
        and notin: "ns ! i \<notin> set N"
      from pend [OF PN] have P: "has_columns c ns P"
        and N: "set N = null_names (schema_fields (internal P))"
        and sub: "set ?R \<subseteq> set N" by auto
      from notin N has_columns_null_at [OF P d i] have
        tp: "ftype (schema_fields (internal P) ! i) \<noteq> PaNull" by simp
      from notin sub R has_columns_null_at [OF r d i] have
        tr: "ftype (?fr ! i) \<noteq> PaNull" by auto
      from typed_fieldsI [OF P i refl tp] PN F have
        "schema_fields (internal P) ! i \<in> F" by force
      moreover from typed_fieldsI [OF r i refl tr] F have "?fr ! i \<in> F" by blast
      moreover have "name (?fr ! i) = name (schema_fields (internal P) ! i)"
        using has_columns_name [OF r i] has_columns_name [OF P i] by simp
      ultimately show "?fr ! i = schema_fields (internal P) ! i"
        using cf unfolding conflict_free_def by blast
    qed
  qed
qed

lemma resolver_init_sound: "resolver_sound c ns {} resolver_init"
  by (simp add: resolver_sound_def resolver_init_def)

lemma validate_compatible_raises_iff:
  assumes d: "distinct ns" and w: "\<forall>schema \<in> set schemas. has_columns c ns schema"
  shows "(\<exists>e. validate_compatible c schemas ignore_pandas = Inl e)
         = ((pandas_in_schemas schemas \<and> \<not> ignore_pandas)
              \<and> (\<exists>schema \<in> set schemas. \<not> has_pandas_key schema)
            \<or> \<not> conflict_free (\<Union>schema \<in> set schemas. typed_fields schema))"
proof -
  let ?hp = "pandas_in_schemas schemas \<and> \<not> ignore_pandas"
  let ?F = "\<Union>schema \<in> set schemas. typed_fields schema"
  show ?thesis
  proof (cases "?hp \<and> (\<exists>schema \<in> set schemas. \<not> has_pandas_key schema)")
    case True
    then obtain s where "s \<in> set schemas" "\<not> has_pandas_key s" by blast
    then obtain pre post where sp: "schemas = pre @ s # post" "\<not> has_pandas_key s"
      by (auto dest: split_list)
    then have step: "resolver_step c True st s = Inl MixedPandasError" for st
      by (simp add: resolver_step_def prepare_current_lacking)
    from True sp have "\<exists>e. resolver_loop c ?hp resolver_init schemas = Inl e"
      by (auto simp: resolver_loop_append step split: sum.splits)
    then have "\<exists>e. validate_compatible c schemas ignore_pandas = Inl e"
      by (auto simp: validate_compatible_def determine_schemas_to_compare_def Let_def)
    with True show ?thesis by simp
  next
    case False
    with w have all: "\<forall>schema \<in> set schemas.
        has_columns c ns schema \<and> (?hp \<longrightarrow> has_pandas_key schema)" by blast
    from resolver_loop_sound [OF d resolver_init_sound all] obtain st where
      loop: "resolver_loop c ?hp resolver_init schemas = Inr st"
      and st: "resolver_sound c ns ?F st" by auto
    show ?thesis
    proof (cases "reference st")
      case None
      with st have "schemas_to_evaluate st = []" "?F = {}"
        by (simp_all add: resolver_sound_def)
      with loop None False show ?thesis
        by (simp add: validate_compatible_def determine_schemas_to_compare_def Let_def
            conflict_free_def)
    next
      case (Some ref)
      let ?pending = "schemas_to_evaluate st"
      from loop Some have det:
        "determine_schemas_to_compare c schemas ignore_pandas = Inr (Some ref, ?pending)"
        by (simp add: determine_schemas_to_compare_def Let_def)
      from st have r: "has_columns c ns ref"
        and pend0: "\<forall>p \<in> set ?pending.
                has_columns c ns (fst p) \<and> distinct (snd p)
                \<and> set (snd p) = null_names (schema_fields (internal (fst p)))
                \<and> set (null_cols_in_reference st) \<subseteq> set (snd p)"
        unfolding resolver_sound_def Some option.case by blast+
      have pend: "has_columns c ns P \<and> distinct N \<and> set N \<subseteq> set ns"
        if "(P, N) \<in> set ?pending" for P N
      proof -
        from pend0 that have "has_columns c ns P" "distinct N"
          "set N = null_names (schema_fields (internal P))" by fastforce+
        with null_names_subset_names [of c ns P] show ?thesis by simp
      qed
      from compare_all_columns [OF d r pend] have
        ok: "(compare_all c ref ?pending = Inr ()) =
          (\<forall>(P, N) \<in> set ?pending. \<forall>i < length ns. ns ! i \<notin> set N \<longrightarrow>
              schema_fields (internal ref) ! i = schema_fields (internal P) ! i)" .
      from r have "schema_settled c (internal ref)"
        by (simp add: has_columns_def is_wrapper_settled)
      then have wo: "with_origin c ref (union_origins ref ?pending) =
          Inr \<lparr>internal = internal ref, origin = union_origins ref ?pending\<rparr>"
        by (simp add: with_origin_def SchemaWrapper_init_settled)
      have "(\<exists>e. validate_compatible c schemas ignore_pandas = Inl e)
          = (compare_all c ref ?pending \<noteq> Inr ())"
        using det wo by (cases "compare_all c ref ?pending") (auto simp: validate_compatible_def)
      also have "\<dots> = (\<not> conflict_free ?F)"
        using ok pass_iff_conflict_free [OF d st Some] by simp
      finally show ?thesis using False by blast
    qed
  qed
qed

text \<open>
  For schema objects that all have the same columns in the same order (the names
  distinct), the order of the list does not change whether \<^verbatim>\<open>validate_compatible\<close>
  raises: by \<open>validate_compatible_raises_iff\<close> it raises exactly when pandas metadata is
  in play and missing from some schema, or two schemas give a column different typed
  fields.
\<close>

lemma validate_compatible_order_independent:
  assumes "distinct ns"
    and "\<forall>schema \<in> set schemas. has_columns c ns schema"
    and "mset schemas' = mset schemas"
  shows "(\<exists>e. validate_compatible c schemas' ignore_pandas = Inl e)
         = (\<exists>e. validate_compatible c schemas ignore_pandas = Inl e)"
proof -
  from assms(3) have eq: "set schemas' = set schemas" by (rule mset_eq_setD)
  with assms(2) have w': "\<forall>schema \<in> set schemas'. has_columns c ns schema" by simp
  from eq have "pandas_in_schemas schemas' = pandas_in_schemas schemas"
    by (simp add: pandas_in_schemas_def)
  with eq show ?thesis
    unfolding validate_compatible_raises_iff [OF assms(1,2)]
      validate_compatible_raises_iff [OF assms(1) w']
    by simp
qed

lemma validate_compatible_order_independent_example:
  "distinct [''a'', ''b'']
   \<and> has_columns example_compat [''a'', ''b''] example_X
   \<and> has_columns example_compat [''a'', ''b''] example_Y
   \<and> mset [example_Y, example_X] = mset [example_X, example_Y]
   \<and> validate_compatible example_compat [example_X, example_Y] False
       = Inr (Some (example_XY_healed\<lparr>origin := {''X'', ''Y''}\<rparr>))
   \<and> (\<exists>e. validate_compatible example_compat [example_Y, example_X] False = Inl e)
       = (\<exists>e. validate_compatible example_compat [example_X, example_Y] False = Inl e)"
proof -
  have d: "distinct [''a'', ''b'']" by simp
  have hX: "has_columns example_compat [''a'', ''b''] example_X" by code_simp
  have hY: "has_columns example_compat [''a'', ''b''] example_Y" by code_simp
  have w: "\<forall>schema \<in> set [example_X, example_Y]. has_columns example_compat [''a'', ''b''] schema"
    using hX hY by simp
  have m: "mset [example_Y, example_X] = mset [example_X, example_Y]" by simp
  have v: "validate_compatible example_compat [example_X, example_Y] False
       = Inr (Some (example_XY_healed\<lparr>origin := {''X'', ''Y''}\<rparr>))" by code_simp
  note t = validate_compatible_order_independent [OF d w m, of False]
  show ?thesis
    by (intro conjI) (rule d hX hY m v t)+
qed

text \<open>
  Claim C2 fails in the code once the columns of two schemas are in a different order.
  The schemas \<^verbatim>\<open>example_U\<close> (columns \<^verbatim>\<open>a\<close> null, \<^verbatim>\<open>b\<close> and \<^verbatim>\<open>c\<close> of type \<^verbatim>\<open>int64\<close>) and
  \<^verbatim>\<open>example_V\<close> (columns \<^verbatim>\<open>b\<close> null, \<^verbatim>\<open>c\<close> and \<^verbatim>\<open>a\<close> of type \<^verbatim>\<open>int64\<close>) have the same
  columns in a different order, and neither set of null columns contains the other.
  With equally many null columns the first schema of the list stays the reference and
  is healed, and the null column of the second is the one stripped before the
  comparison.

  \<^item> For the list \<^verbatim>\<open>[example_U, example_V]\<close> column \<^verbatim>\<open>b\<close> is stripped: \<^verbatim>\<open>a, c\<close> is compared
    with \<^verbatim>\<open>c, a\<close>, the comparison fails and the call raises (here the \<^verbatim>\<open>ValueError\<close> of
    \<^verbatim>\<open>_diff_schemas\<close>, the schemas having no metadata).
  \<^item> For the list \<^verbatim>\<open>[example_V, example_U]\<close> column \<^verbatim>\<open>a\<close> is stripped: \<^verbatim>\<open>b, c\<close> is compared
    with \<^verbatim>\<open>b, c\<close> and the call returns, although the two schemas differ in the order
    of their columns, which the docstring of \<^verbatim>\<open>validate_compatible\<close> does not allow
    (apart from the pandas version the schemas must be completely identical).
\<close>

theorem order_counterexample:
  "mset [example_V, example_U] = mset [example_U, example_V]
   \<and> schema_names (internal example_U) \<noteq> schema_names (internal example_V)
   \<and> validate_compatible example_compat [example_U, example_V] False = Inl UnpackValueError
   \<and> validate_compatible example_compat [example_V, example_U] False
       = Inr (Some (example_schema [example_field ''b'' PaInt64, example_field ''c'' PaInt64,
                     example_field ''a'' PaInt64] ''V''\<lparr>origin := {''U'', ''V''}\<rparr>))
   \<and> \<not> ((\<exists>e. validate_compatible example_compat [example_V, example_U] False = Inl e)
          = (\<exists>e. validate_compatible example_compat [example_U, example_V] False = Inl e))"
proof -
  have m: "mset [example_V, example_U] = mset [example_U, example_V]" by simp
  have n: "schema_names (internal example_U) \<noteq> schema_names (internal example_V)"
    by code_simp
  have uv: "validate_compatible example_compat [example_U, example_V] False
      = Inl UnpackValueError" by code_simp
  have vu: "validate_compatible example_compat [example_V, example_U] False
       = Inr (Some (example_schema [example_field ''b'' PaInt64, example_field ''c'' PaInt64,
                     example_field ''a'' PaInt64] ''V''\<lparr>origin := {''U'', ''V''}\<rparr>))"
    by code_simp
  have d: "\<not> ((\<exists>e. validate_compatible example_compat [example_V, example_U] False = Inl e)
          = (\<exists>e. validate_compatible example_compat [example_U, example_V] False = Inl e))"
    unfolding uv vu by simp
  show ?thesis
    by (intro conjI) (rule m n uv vu d)+
qed

end
